theory Spec2Isabelle
  imports Main "HOL-Library.Word"
begin

unbundle bit_operations_syntax

section \<open>The fixed-size arena of \<^verbatim>\<open>src/fixed-arena/main.cpp\<close>\<close>

text \<open>
  The class template \<^verbatim>\<open>FixedArena<N, MaxDtors>\<close> is embedded for an LP64 platform:
  \<^verbatim>\<open>std::size_t\<close> is a 64-bit word whose arithmetic wraps, an address is a 64-bit
  word, and a pointer is an \<open>addr option\<close> with \<open>None\<close> for \<^verbatim>\<open>nullptr\<close>. The template
  arguments \<open>N\<close> and \<open>MaxDtors\<close> are parameters of the operations. What the code does to
  the outside (running a constructor or a destructor, printing) is recorded as a list of
  events that every operation threads through.
\<close>

subsection \<open>Types of the platform\<close>

type_synonym size_t = "64 word"
type_synonym addr = "64 word"

text \<open>The largest size of any object, and \<^verbatim>\<open>alignof(std::max_align_t)\<close>.\<close>

definition PTRDIFF_MAX :: nat where
  "PTRDIFF_MAX = 2 ^ 63 - 1"

definition alignof_max_align_t :: size_t where
  "alignof_max_align_t = 16"

text \<open>
  A type argument \<open>T\<close> of \<^verbatim>\<open>make<T>\<close>, reduced to what the arena asks of it:
  \<^verbatim>\<open>sizeof(T)\<close>, \<^verbatim>\<open>alignof(T)\<close> and \<^verbatim>\<open>std::is_array_v<T>\<close>.
\<close>

record cxx_type =
  type_name :: string
  sizeof :: size_t
  alignof :: size_t
  is_array :: bool

text \<open>The constructor \<^verbatim>\<open>T(args...)\<close> is foreign code: it returns or it throws.\<close>

datatype ctor = Ctor_returns | Ctor_throws

datatype event =
  Constructed cxx_type addr
  | Destroyed cxx_type addr
  | Puts string

text \<open>
  A value of type \<^verbatim>\<open>void (*)(void*) noexcept\<close> in the ledger: the null pointer of the
  zero-initialised array, or \<^verbatim>\<open>&destroy<T>\<close>.
\<close>

datatype fn_ptr = Null_fn | Destroy cxx_type

record DtorEntry =
  fn :: fn_ptr
  ptr :: "addr option"

text \<open>
  The data members \<^verbatim>\<open>buffer_\<close>, \<^verbatim>\<open>offset_\<close>, \<^verbatim>\<open>dtors_\<close> and \<^verbatim>\<open>dtor_count_\<close>, written
  without the trailing underscore (which a record field cannot carry). \<open>buffer\<close> stands
  for the address of the member array \<^verbatim>\<open>buffer_[N]\<close>; \<open>dtors\<close> is the array
  \<^verbatim>\<open>dtors_[MaxDtors]\<close>.
\<close>

record FixedArena =
  buffer :: addr
  offset :: size_t
  dtors :: "DtorEntry list"
  dtor_count :: size_t

text \<open>
  How a call ends: it returns a value, an exception leaves it, or \<^verbatim>\<open>::abort()\<close>
  terminates the process.
\<close>

datatype 'r outcome = Returns 'r | Throws | Aborts

type_synonym world = "FixedArena \<times> event list"

subsection \<open>The operations\<close>

text \<open>The defaulted constructor with the default member initialisers.\<close>

definition FixedArena_init :: "size_t \<Rightarrow> addr \<Rightarrow> FixedArena" where
  "FixedArena_init MaxDtors buf =
     \<lparr>buffer = buf, offset = 0,
      dtors = replicate (unat MaxDtors) \<lparr>fn = Null_fn, ptr = None\<rparr>,
      dtor_count = 0\<rparr>"

text \<open>
  \<^verbatim>\<open>std::size_t mask = alignment - 1; return (x + mask) & ~mask;\<close>
  The function is embedded for every word size; the arena uses it at 64 bits.
\<close>

definition align_up :: "'a::len word \<Rightarrow> 'a word \<Rightarrow> 'a word" where
  "align_up x alignment = (let mask = alignment - 1 in (x + mask) AND NOT mask)"

text \<open>
  \<^verbatim>\<open>allocate_aligned(size, alignment)\<close>: the comparison and both sums are those of
  \<^verbatim>\<open>std::size_t\<close>; on failure nothing is written.
\<close>

definition allocate_aligned ::
  "size_t \<Rightarrow> size_t \<Rightarrow> size_t \<Rightarrow> FixedArena \<Rightarrow> addr option \<times> FixedArena" where
  "allocate_aligned N sz alignment a =
     (let current = offset a;
          aligned = align_up current alignment
      in if aligned + sz > N then (None, a)
         else (Some (buffer a + aligned), a\<lparr>offset := aligned + sz\<rparr>))"

text \<open>
  \<^verbatim>\<open>push_dtor<T>(obj)\<close>: with the ledger full it prints and calls \<^verbatim>\<open>::abort()\<close>; otherwise
  it writes \<^verbatim>\<open>dtors_[dtor_count_++] = DtorEntry{&destroy<T>, obj}\<close>.
\<close>

definition push_dtor :: "size_t \<Rightarrow> cxx_type \<Rightarrow> addr \<Rightarrow> world \<Rightarrow> unit outcome \<times> world" where
  "push_dtor MaxDtors T obj w =
     (case w of (a, tr) \<Rightarrow>
        if dtor_count a \<ge> MaxDtors
        then (Aborts, (a, tr @ [Puts ''Too many objects for destructor list'']))
        else (Returns (),
              (a\<lparr>dtors := (dtors a)[unat (dtor_count a) := \<lparr>fn = Destroy T, ptr = Some obj\<rparr>],
                 dtor_count := dtor_count a + 1\<rparr>, tr)))"

text \<open>The two \<^verbatim>\<open>static_assert\<close>s of \<^verbatim>\<open>make\<close>: a type that fails them does not compile.\<close>

definition make_static_asserts :: "cxx_type \<Rightarrow> bool" where
  "make_static_asserts T \<longleftrightarrow> \<not> is_array T \<and> alignof T \<le> alignof_max_align_t"

text \<open>
  \<^verbatim>\<open>make<T>(args...)\<close>: reserve the bytes, return \<^verbatim>\<open>nullptr\<close> if there are none,
  construct in place (the constructor may throw, and nothing catches), register the
  destructor, return the object's address.
\<close>

definition make ::
  "size_t \<Rightarrow> size_t \<Rightarrow> cxx_type \<Rightarrow> ctor \<Rightarrow> world \<Rightarrow> addr option outcome \<times> world" where
  "make N MaxDtors T ctor w =
     (case w of (a, tr) \<Rightarrow>
        (case allocate_aligned N (sizeof T) (alignof T) a of
           (None, a1) \<Rightarrow> (Returns None, (a1, tr))
         | (Some mem, a1) \<Rightarrow>
             (case ctor of
                Ctor_throws \<Rightarrow> (Throws, (a1, tr))
              | Ctor_returns \<Rightarrow>
                  (case push_dtor MaxDtors T mem (a1, tr @ [Constructed T mem]) of
                     (Returns u, w2) \<Rightarrow> (Returns (Some mem), w2)
                   | (Throws, w2) \<Rightarrow> (Throws, w2)
                   | (Aborts, w2) \<Rightarrow> (Aborts, w2)))))"

text \<open>
  The call \<^verbatim>\<open>dtors_[i - 1].fn(dtors_[i - 1].ptr)\<close>. Calling through a null function
  pointer, or destroying at the null address, is undefined behaviour: \<open>None\<close>.
  \<^verbatim>\<open>destroy<T>\<close> is \<^verbatim>\<open>noexcept\<close>: the destructor of \<open>T\<close> is taken to return.
\<close>

definition call_dtor :: "DtorEntry \<Rightarrow> event list \<Rightarrow> event list option" where
  "call_dtor e tr =
     (case fn e of
        Null_fn \<Rightarrow> None
      | Destroy T \<Rightarrow> (case ptr e of None \<Rightarrow> None | Some p \<Rightarrow> Some (tr @ [Destroyed T p])))"

text \<open>
  The loop \<^verbatim>\<open>for (std::size_t i = dtor_count_; i > 0; --i)\<close> of \<^verbatim>\<open>reset\<close>. Reading the
  array beyond its end is undefined behaviour: \<open>None\<close>.
\<close>

function reset_loop :: "size_t \<Rightarrow> DtorEntry list \<Rightarrow> event list \<Rightarrow> event list option" where
  "reset_loop i ds tr =
     (if i > 0 then
        (if unat (i - 1) < length ds then
           (case call_dtor (ds ! unat (i - 1)) tr of
              None \<Rightarrow> None
            | Some tr' \<Rightarrow> reset_loop (i - 1) ds tr')
         else None)
      else Some tr)"
  by pat_completeness auto
termination
  by (relation "measure (\<lambda>(i, ds, tr). unat i)") (auto simp: measure_unat)

declare reset_loop.simps [simp del]

text \<open>\<^verbatim>\<open>reset()\<close>: the loop, then \<^verbatim>\<open>dtor_count_ = 0; offset_ = 0;\<close>.\<close>

definition reset :: "world \<Rightarrow> world option" where
  "reset w =
     (case w of (a, tr) \<Rightarrow>
        (case reset_loop (dtor_count a) (dtors a) tr of
           None \<Rightarrow> None
         | Some tr' \<Rightarrow> Some (a\<lparr>dtor_count := 0, offset := 0\<rparr>, tr')))"

definition used :: "FixedArena \<Rightarrow> size_t" where
  "used a = offset a"

definition capacity :: "size_t \<Rightarrow> size_t" where
  "capacity N = N"

text \<open>
  The destructor \<^verbatim>\<open>~FixedArena() { reset(); }\<close>. The object is gone afterwards; what
  remains is the trace.
\<close>

definition FixedArena_destructor :: "world \<Rightarrow> event list option" where
  "FixedArena_destructor w = (case reset w of None \<Rightarrow> None | Some (a, tr) \<Rightarrow> Some tr)"

text \<open>The test of \<^verbatim>\<open>allocate_aligned\<close> for the bytes of a \<open>T\<close>, negated: they fit.\<close>

definition fits :: "size_t \<Rightarrow> cxx_type \<Rightarrow> FixedArena \<Rightarrow> bool" where
  "fits N T a \<longleftrightarrow> \<not> align_up (offset a) (alignof T) + sizeof T > N"

subsection \<open>The specification's rounding\<close>

text \<open>
  The specification's \<open>round_up\<close>, on unbounded naturals: the least multiple of the
  alignment that is not below the offset (lemma \<open>round_up_is_least\<close>).
\<close>

definition round_up :: "nat \<Rightarrow> nat \<Rightarrow> nat" where
  "round_up x a = ((x + a - 1) div a) * a"

subsection \<open>Sequences of requests\<close>

text \<open>
  A caller that issues \<^verbatim>\<open>make\<close> requests one after the other, as \<^verbatim>\<open>main\<close> does, and
  goes on after a null handle or a caught exception. Nothing runs after \<^verbatim>\<open>::abort()\<close>.
\<close>

fun make_all ::
  "size_t \<Rightarrow> size_t \<Rightarrow> (cxx_type \<times> ctor) list \<Rightarrow> world \<Rightarrow> addr option outcome list \<times> world" where
  "make_all N MaxDtors [] w = ([], w)"
| "make_all N MaxDtors ((T, c) # rs) w =
     (case make N MaxDtors T c w of
        (Aborts, w') \<Rightarrow> ([Aborts], w')
      | (r, w') \<Rightarrow> (case make_all N MaxDtors rs w' of (os, w'') \<Rightarrow> (r # os, w'')))"

text \<open>The objects whose handles a sequence of requests returned, in the order of the requests.\<close>

fun made_objects ::
  "(cxx_type \<times> ctor) list \<Rightarrow> addr option outcome list \<Rightarrow> (cxx_type \<times> addr) list" where
  "made_objects ((T, c) # rs) (Returns (Some p) # os) = (T, p) # made_objects rs os"
| "made_objects (r # rs) (out # os) = made_objects rs os"
| "made_objects rs os = []"

text \<open>
  The objects whose constructors completed, read off a trace in the order of
  construction.
\<close>

fun constructed :: "event list \<Rightarrow> (cxx_type \<times> addr) list" where
  "constructed [] = []"
| "constructed (Constructed T p # es) = (T, p) # constructed es"
| "constructed (e # es) = constructed es"

subsection \<open>The block that owns the arena\<close>

text \<open>
  The block that owns an arena with automatic storage duration is left by a return or by
  an exception; the destructor runs on both paths. After \<^verbatim>\<open>::abort()\<close> the process is
  gone and no destructor runs.
\<close>

definition leave_scope :: "'r outcome \<times> world \<Rightarrow> ('r outcome \<times> event list) option" where
  "leave_scope bw =
     (case bw of
        (Aborts, (a, tr)) \<Rightarrow> Some (Aborts, tr)
      | (r, w) \<Rightarrow> (case FixedArena_destructor w of None \<Rightarrow> None | Some tr' \<Rightarrow> Some (r, tr')))"

subsection \<open>The example of \<^verbatim>\<open>main\<close>\<close>

text \<open>The example type of the source: \<^verbatim>\<open>struct Widget { ...; int id; }\<close>.\<close>

definition Widget :: cxx_type where
  "Widget = \<lparr>type_name = ''Widget'', sizeof = 4, alignof = 4, is_array = False\<rparr>"

text \<open>The three requests of \<^verbatim>\<open>main\<close>: \<^verbatim>\<open>make<Widget>(1)\<close>, \<^verbatim>\<open>(2)\<close>, \<^verbatim>\<open>(3)\<close>.\<close>

definition three_widgets :: "(cxx_type \<times> ctor) list" where
  "three_widgets = [(Widget, Ctor_returns), (Widget, Ctor_returns), (Widget, Ctor_returns)]"

text \<open>
  The arena \<^verbatim>\<open>FixedArena<1024, 2>\<close> at address 4096 after two calls of
  \<^verbatim>\<open>make<Widget>\<close> (lemma \<open>two_widgets\<close>).
\<close>

definition widget_arena :: FixedArena where
  "widget_arena =
     \<lparr>buffer = 4096, offset = 8,
      dtors = [\<lparr>fn = Destroy Widget, ptr = Some 4096\<rparr>, \<lparr>fn = Destroy Widget, ptr = Some 4100\<rparr>],
      dtor_count = 2\<rparr>"

subsection \<open>What the language and the platform guarantee\<close>

text \<open>
  Every complete object type has a size of at least one byte and at most
  \<open>PTRDIFF_MAX\<close>, and an alignment that is a power of two (one bit set).
\<close>

definition is_pow2 :: "'a::len word \<Rightarrow> bool" where
  "is_pow2 w \<longleftrightarrow> w \<noteq> 0 \<and> w AND (w - 1) = 0"

definition cxx_type_ok :: "cxx_type \<Rightarrow> bool" where
  "cxx_type_ok T \<longleftrightarrow>
     0 < sizeof T \<and> unat (sizeof T) \<le> PTRDIFF_MAX \<and> is_pow2 (alignof T)"

text \<open>
  The types that \<^verbatim>\<open>make\<close> serves: those of the language that pass its
  \<^verbatim>\<open>static_assert\<close>s.
\<close>

definition supported :: "cxx_type \<Rightarrow> bool" where
  "supported T \<longleftrightarrow> cxx_type_ok T \<and> make_static_asserts T"

text \<open>
  The arena object contains \<^verbatim>\<open>buffer_[N]\<close> and further members of at least 16 bytes
  (\<^verbatim>\<open>offset_\<close> and \<^verbatim>\<open>dtor_count_\<close>), and no object is larger than \<open>PTRDIFF_MAX\<close>; the buffer
  is declared \<^verbatim>\<open>alignas(std::max_align_t)\<close> and lies in the address space.
\<close>

definition layout_ok :: "size_t \<Rightarrow> FixedArena \<Rightarrow> bool" where
  "layout_ok N a \<longleftrightarrow>
     unat N + unat alignof_max_align_t \<le> PTRDIFF_MAX \<and>
     buffer a mod alignof_max_align_t = 0 \<and>
     unat (buffer a) + unat N < 2 ^ 64"

subsection \<open>The ledger and the invariant of the class\<close>

text \<open>The entries in use, \<^verbatim>\<open>dtors_[0 .. dtor_count_ - 1]\<close>, oldest first.\<close>

definition ledger :: "FixedArena \<Rightarrow> DtorEntry list" where
  "ledger a = take (unat (dtor_count a)) (dtors a)"

text \<open>
  The object that a ledger entry stands for, when the entry is
  \<^verbatim>\<open>DtorEntry{&destroy<T>, obj}\<close> with a non-null \<^verbatim>\<open>obj\<close>; and that entry, for an object.
\<close>

definition entry_object :: "DtorEntry \<Rightarrow> (cxx_type \<times> addr) option" where
  "entry_object e =
     (case fn e of
        Null_fn \<Rightarrow> None
      | Destroy T \<Rightarrow> (case ptr e of None \<Rightarrow> None | Some p \<Rightarrow> Some (T, p)))"

definition object_entry :: "cxx_type \<times> addr \<Rightarrow> DtorEntry" where
  "object_entry obj = \<lparr>fn = Destroy (fst obj), ptr = Some (snd obj)\<rparr>"

text \<open>The objects whose finalizers are outstanding, oldest first.\<close>

definition live_objects :: "FixedArena \<Rightarrow> (cxx_type \<times> addr) list" where
  "live_objects a = List.map_filter entry_object (ledger a)"

text \<open>The event of running an object's finalizer.\<close>

definition destroyed :: "cxx_type \<times> addr \<Rightarrow> event" where
  "destroyed obj = Destroyed (fst obj) (snd obj)"

text \<open>
  The invariant: the array has \<open>MaxDtors\<close> elements, the count and the offset are within
  their bounds, and every entry in use stands for an object.
\<close>

definition arena_inv :: "size_t \<Rightarrow> size_t \<Rightarrow> FixedArena \<Rightarrow> bool" where
  "arena_inv N MaxDtors a \<longleftrightarrow>
     length (dtors a) = unat MaxDtors \<and>
     dtor_count a \<le> MaxDtors \<and>
     offset a \<le> N \<and>
     ledger a = map object_entry (live_objects a)"

text \<open>
  Two arenas that agree on what \<^verbatim>\<open>make\<close> reads: the buffer's address, the offset and
  the number of ledger entries in use.
\<close>

definition same_cursor :: "FixedArena \<Rightarrow> FixedArena \<Rightarrow> bool" where
  "same_cursor a b \<longleftrightarrow>
     buffer a = buffer b \<and> offset a = offset b \<and> dtor_count a = dtor_count b"

subsection \<open>The states of a running program\<close>

text \<open>
  The states that the arena at address \<open>buf\<close> passes through while the process lives:
  the fresh arena, and what \<^verbatim>\<open>make\<close> and \<^verbatim>\<open>reset\<close> lead to.
\<close>

inductive reachable :: "size_t \<Rightarrow> size_t \<Rightarrow> addr \<Rightarrow> world \<Rightarrow> bool"
  for N MaxDtors buf where
  fresh: "reachable N MaxDtors buf (FixedArena_init MaxDtors buf, tr)"
| made: "reachable N MaxDtors buf w \<Longrightarrow> make N MaxDtors T c w = (r, w') \<Longrightarrow> r \<noteq> Aborts \<Longrightarrow>
     reachable N MaxDtors buf w'"
| was_reset: "reachable N MaxDtors buf w \<Longrightarrow> reset w = Some w' \<Longrightarrow> reachable N MaxDtors buf w'"

section \<open>Alignment arithmetic\<close>

lemma and_not_mask_shift:
  fixes y :: "'a::len word"
  shows "y AND NOT (mask k) = push_bit k (drop_bit k y)"
  by (rule bit_eqI) (auto simp: bit_simps)

lemma unat_and_not_mask:
  fixes y :: "'a::len word"
  shows "unat (y AND NOT (mask k)) = (unat y div 2 ^ k) * 2 ^ k"
proof -
  have "(unat y div 2 ^ k) * 2 ^ k \<le> unat y"
    by simp
  also have "unat y < 2 ^ LENGTH('a)"
    by (rule unsigned_less)
  finally have small:
    "take_bit LENGTH('a) ((unat y div 2 ^ k) * 2 ^ k) = (unat y div 2 ^ k) * 2 ^ k"
    by (simp add: take_bit_nat_eq_self)
  have "unat (push_bit k (drop_bit k y)) = take_bit LENGTH('a) (push_bit k (drop_bit k (unat y)))"
    by (simp only: unsigned_push_bit_eq unat_drop_bit_eq)
  also have "\<dots> = take_bit LENGTH('a) ((unat y div 2 ^ k) * 2 ^ k)"
    by (simp only: push_bit_eq_mult drop_bit_eq_div)
  finally show ?thesis
    by (simp only: and_not_mask_shift small)
qed

lemma unat_mask_word:
  assumes "k < LENGTH('a)"
  shows "unat (mask k :: 'a::len word) = 2 ^ k - 1"
proof -
  have "uint (mask k :: 'a word) = mask k"
    using assms by (simp only: uint_mask_eq min_def) simp
  then have "unat (mask k :: 'a word) = nat (mask k)"
    by (simp only: unat_eq_nat_uint)
  also have "\<dots> = (mask k :: nat)"
    by (rule nat_mask_eq)
  finally show ?thesis
    by (simp only: mask_eq_exp_minus_1)
qed

lemma unat_align_up:
  fixes x :: "'a::len word"
  assumes k: "k < LENGTH('a)" and nov: "unat x + 2 ^ k - 1 < 2 ^ LENGTH('a)"
  shows "unat (align_up x (2 ^ k)) = ((unat x + 2 ^ k - 1) div 2 ^ k) * 2 ^ k"
proof -
  have m: "(2 ^ k - 1 :: 'a word) = mask k"
    by (simp add: mask_eq_decr_exp)
  have um: "unat (mask k :: 'a word) = 2 ^ k - 1"
    using k by (rule unat_mask_word)
  have "unat x + unat (mask k :: 'a word) < 2 ^ LENGTH('a)"
    using nov um by simp
  then have "unat (x + mask k) = unat x + unat (mask k :: 'a word)"
    by (simp only: unat_add_lem)
  then have s: "unat (x + mask k) = unat x + 2 ^ k - 1"
    using um by simp
  show ?thesis
    by (simp add: align_up_def m Let_def unat_and_not_mask s)
qed

lemma unat_2p: "k < LENGTH('a) \<Longrightarrow> unat (2 ^ k :: 'a::len word) = 2 ^ k"
proof -
  assume "k < LENGTH('a)"
  then have "(2::nat) ^ k < 2 ^ LENGTH('a)" by simp
  then have "unat (of_nat (2 ^ k) :: 'a word) = 2 ^ k"
    by (simp only: of_nat_inverse)
  then show ?thesis by simp
qed

lemma q_div: "0 < (a::nat) \<Longrightarrow> (q * a + a - 1) div a = q"
  by (metis Euclidean_Rings.div_eq_0_iff Nat.add_diff_assoc Suc_diff_1
    add.right_neutral diff_less div_mult_self4 le_zero_eq less_one
    mult.commute not_gr_zero not_less_eq_eq)

lemma round_up_dvd: "(a::nat) dvd ((x + a - 1) div a) * a"
  by simp

lemma round_up_ge:
  fixes x a :: nat
  assumes "0 < a"
  shows "x \<le> ((x + a - 1) div a) * a"
proof -
  have "x + a - 1 < ((x + a - 1) div a) * a + a"
    using assms by (metis add.commute dividend_less_div_times mult.commute)
  then show ?thesis by linarith
qed

lemma round_up_le:
  fixes x a :: nat
  assumes "0 < a" and "a dvd m" and "x \<le> m"
  shows "((x + a - 1) div a) * a \<le> m"
proof -
  from \<open>a dvd m\<close> obtain q where q: "m = q * a"
    by (metis dvd_def mult.commute)
  have "(x + a - 1) div a \<le> (q * a + a - 1) div a"
    using \<open>x \<le> m\<close> q by (intro div_le_mono) simp
  also have "\<dots> = q"
    using assms(1) by (rule q_div)
  finally show ?thesis
    using q by simp
qed

lemma round_up_is_least:
  assumes "0 < a"
  shows "a dvd round_up x a \<and> x \<le> round_up x a \<and>
         (\<forall>m. a dvd m \<and> x \<le> m \<longrightarrow> round_up x a \<le> m)"
  unfolding round_up_def
  using assms round_up_dvd [of a x] round_up_ge [of a x] round_up_le [of a _ x]
  by blast

lemma nat_single_bit:
  fixes n :: nat
  shows "0 < n \<Longrightarrow> n AND (n - 1) = 0 \<Longrightarrow> \<exists>k. n = 2 ^ k"
proof (induction n rule: less_induct)
  case (less n)
  show ?case
  proof (cases "even n")
    case True
    then obtain m where m: "n = 2 * m" by (auto elim: evenE)
    with less.prems have mpos: "0 < m" by simp
    have "n - 1 = 2 * (m - 1) + 1" using m mpos by simp
    then have "n AND (n - 1) = 2 * (m AND (m - 1))"
      using m by (subst and_rec) simp
    with less.prems have "m AND (m - 1) = 0" by simp
    moreover have "m < n" using m mpos by simp
    ultimately obtain k where "m = 2 ^ k" using less.IH mpos by blast
    then have "n = 2 ^ Suc k" using m by simp
    then show ?thesis by blast
  next
    case False
    then obtain m where m: "n = 2 * m + 1" by (auto elim: oddE)
    then have "n AND (n - 1) = 2 * m"
      by (subst and_rec) simp
    with less.prems have "m = 0" by simp
    with m have "n = 2 ^ 0" by simp
    then show ?thesis by blast
  qed
qed

lemma is_pow2_exp:
  fixes w :: "'a::len word"
  assumes "is_pow2 w"
  shows "\<exists>k<LENGTH('a). w = 2 ^ k"
proof -
  from assms have "w \<noteq> 0" and "w AND (w - 1) = 0"
    by (simp_all add: is_pow2_def)
  note assms = this
  have "unat (w AND (w - 1)) = unat w AND (unat w - 1)"
    using assms(1) by (simp add: unsigned_and_eq unat_minus_one)
  with assms have "unat w AND (unat w - 1) = 0" by simp
  moreover have "0 < unat w" using assms(1) by (simp add: unat_gt_0)
  ultimately obtain k where k: "unat w = 2 ^ k" using nat_single_bit by blast
  have "unat w < 2 ^ LENGTH('a)" by (rule unsigned_less)
  with k have "k < LENGTH('a)" by simp
  moreover have "w = 2 ^ k"
    using k by (metis of_nat_inverse of_nat_numeral of_nat_power unsigned_less
    unsigned_word_eqI)
  ultimately show ?thesis by blast
qed

text \<open>
  Claim C9. For an alignment \<open>a = 2 ^ k\<close> and an offset \<open>x\<close> with \<open>x + a - 1\<close> below
  \<open>2 ^ w\<close>, the value \<open>(x + (a - 1)) AND NOT (a - 1)\<close> that \<open>align_up\<close> computes in
  \<open>w\<close>-bit arithmetic is the least multiple of \<open>a\<close> that is greater than or equal to \<open>x\<close>.
\<close>

theorem align_up_least_multiple:
  fixes x a :: "'a::len word"
  assumes pow2: "a = 2 ^ k" and k: "k < LENGTH('a)"
    and nov: "unat x + unat a - 1 < 2 ^ LENGTH('a)"
  shows "align_up x a = (x + (a - 1)) AND NOT (a - 1) \<and>
         unat a dvd unat (align_up x a) \<and>
         unat x \<le> unat (align_up x a) \<and>
         (\<forall>m. unat a dvd m \<and> unat x \<le> m \<longrightarrow> unat (align_up x a) \<le> m)"
proof -
  have ua: "unat a = 2 ^ k"
    using pow2 k by (simp add: unat_2p)
  then have pos: "0 < unat a" by simp
  have "unat x + 2 ^ k - 1 < 2 ^ LENGTH('a)"
    using nov ua by simp
  with k have "unat (align_up x (2 ^ k)) = ((unat x + 2 ^ k - 1) div 2 ^ k) * 2 ^ k"
    by (rule unat_align_up)
  then have r: "unat (align_up x a) = ((unat x + unat a - 1) div unat a) * unat a"
    using pow2 ua by simp
  have "align_up x a = (x + (a - 1)) AND NOT (a - 1)"
    by (simp add: align_up_def Let_def)
  moreover have "unat a dvd unat (align_up x a)"
    unfolding r by (rule round_up_dvd)
  moreover have "unat x \<le> unat (align_up x a)"
    unfolding r using pos by (rule round_up_ge)
  moreover have "\<forall>m. unat a dvd m \<and> unat x \<le> m \<longrightarrow> unat (align_up x a) \<le> m"
    unfolding r using pos by (blast intro: round_up_le)
  ultimately show ?thesis by blast
qed

theorem align_up_least_multiple_witness:
  "(8 :: 64 word) = 2 ^ 3 \<and> (3::nat) < LENGTH(64) \<and>
   unat (13 :: 64 word) + unat (8 :: 64 word) - 1 < 2 ^ LENGTH(64) \<and>
   align_up (13 :: 64 word) 8 = 16 \<and>
   unat (8 :: 64 word) dvd unat (align_up (13 :: 64 word) 8) \<and>
   unat (13 :: 64 word) \<le> unat (align_up (13 :: 64 word) 8) \<and>
   unat (align_up (13 :: 64 word) 8) \<le> 24"
  using align_up_least_multiple [of "8 :: 64 word" 3 13]
  by (simp add: align_up_def)

text \<open>
  The formula of \<open>align_up\<close> needs both of its preconditions: with an alignment that is
  not a power of two the result need not be a multiple of it, and at the top of the
  address range the sum wraps.
\<close>

lemma align_up_preconditions:
  "align_up (1 :: 64 word) 3 = 1 \<and> align_up (- 1 :: 64 word) 8 = 0"
  by (simp add: align_up_def)

section \<open>The outcomes of \<^verbatim>\<open>make\<close>\<close>

lemma make_no_fit:
  "\<not> fits N T a \<Longrightarrow> make N MaxDtors T c (a, tr) = (Returns None, (a, tr))"
  by (simp add: make_def allocate_aligned_def fits_def Let_def)

lemma make_throws:
  "fits N T a \<Longrightarrow>
   make N MaxDtors T Ctor_throws (a, tr) =
     (Throws, (a\<lparr>offset := align_up (offset a) (alignof T) + sizeof T\<rparr>, tr))"
  by (simp add: make_def allocate_aligned_def fits_def Let_def)

lemma make_aborts:
  "fits N T a \<Longrightarrow> MaxDtors \<le> dtor_count a \<Longrightarrow>
   make N MaxDtors T Ctor_returns (a, tr) =
     (Aborts, (a\<lparr>offset := align_up (offset a) (alignof T) + sizeof T\<rparr>,
        tr @ [Constructed T (buffer a + align_up (offset a) (alignof T)),
              Puts ''Too many objects for destructor list'']))"
  by (simp add: make_def allocate_aligned_def fits_def Let_def push_dtor_def)

lemma make_returns:
  "fits N T a \<Longrightarrow> dtor_count a < MaxDtors \<Longrightarrow>
   make N MaxDtors T Ctor_returns (a, tr) =
     (Returns (Some (buffer a + align_up (offset a) (alignof T))),
      (a\<lparr>offset := align_up (offset a) (alignof T) + sizeof T,
         dtors := (dtors a)[unat (dtor_count a) :=
            \<lparr>fn = Destroy T, ptr = Some (buffer a + align_up (offset a) (alignof T))\<rparr>],
         dtor_count := dtor_count a + 1\<rparr>,
       tr @ [Constructed T (buffer a + align_up (offset a) (alignof T))]))"
  by (simp add: make_def allocate_aligned_def fits_def Let_def push_dtor_def)

text \<open>The four ways a call of \<^verbatim>\<open>make\<close> ends.\<close>

lemma make_cases:
  obtains
    (no_fit) "\<not> fits N T a" "make N MaxDtors T c (a, tr) = (Returns None, (a, tr))"
  | (throws) "fits N T a" "c = Ctor_throws"
      "make N MaxDtors T c (a, tr) =
         (Throws, (a\<lparr>offset := align_up (offset a) (alignof T) + sizeof T\<rparr>, tr))"
  | (aborts) "fits N T a" "c = Ctor_returns" "MaxDtors \<le> dtor_count a"
      "make N MaxDtors T c (a, tr) =
         (Aborts, (a\<lparr>offset := align_up (offset a) (alignof T) + sizeof T\<rparr>,
            tr @ [Constructed T (buffer a + align_up (offset a) (alignof T)),
                  Puts ''Too many objects for destructor list'']))"
  | (returns) "fits N T a" "c = Ctor_returns" "dtor_count a < MaxDtors"
      "make N MaxDtors T c (a, tr) =
         (Returns (Some (buffer a + align_up (offset a) (alignof T))),
          (a\<lparr>offset := align_up (offset a) (alignof T) + sizeof T,
             dtors := (dtors a)[unat (dtor_count a) :=
                \<lparr>fn = Destroy T, ptr = Some (buffer a + align_up (offset a) (alignof T))\<rparr>],
             dtor_count := dtor_count a + 1\<rparr>,
           tr @ [Constructed T (buffer a + align_up (offset a) (alignof T))]))"
proof (cases "fits N T a")
  case False
  then show ?thesis using no_fit make_no_fit by blast
next
  case True
  show ?thesis
  proof (cases c)
    case Ctor_throws
    then show ?thesis using True throws make_throws by blast
  next
    case Ctor_returns
    show ?thesis
    proof (cases "dtor_count a < MaxDtors")
      case True
      then show ?thesis using \<open>fits N T a\<close> Ctor_returns returns make_returns by blast
    next
      case False
      then have "MaxDtors \<le> dtor_count a" by simp
      then show ?thesis using \<open>fits N T a\<close> Ctor_returns aborts make_aborts by blast
    qed
  qed
qed

section \<open>The arithmetic of \<^verbatim>\<open>allocate_aligned\<close> where nothing wraps\<close>

lemma alloc_arith:
  assumes off: "offset a \<le> N" and lay: "layout_ok N a"
    and ok: "cxx_type_ok T" and sa: "make_static_asserts T"
  shows "unat (align_up (offset a) (alignof T)) = round_up (unat (offset a)) (unat (alignof T))"
    and "unat (align_up (offset a) (alignof T) + sizeof T) =
         round_up (unat (offset a)) (unat (alignof T)) + unat (sizeof T)"
    and "unat (offset a) \<le> round_up (unat (offset a)) (unat (alignof T))"
    and "unat (alignof T) dvd round_up (unat (offset a)) (unat (alignof T))"
    and "0 < unat (alignof T)"
proof -
  from ok obtain k where k: "k < 64" and al: "alignof T = 2 ^ k"
    using is_pow2_exp [of "alignof T"] by (auto simp: cxx_type_ok_def)
  have u2: "unat (2 ^ k :: 64 word) = 2 ^ k"
    using k by (simp add: unat_2p)
  have ual: "unat (alignof T) = 2 ^ k"
    using u2 al by simp
  from sa have "unat (alignof T) \<le> 16"
    by (simp add: make_static_asserts_def alignof_max_align_t_def word_le_nat_alt)
  then have al16: "(2::nat) ^ k \<le> 16" using ual by simp
  from off have offN: "unat (offset a) \<le> unat N"
    by (simp add: word_le_nat_alt)
  from lay have N: "unat N + 16 \<le> 2 ^ 63 - 1"
    by (simp add: layout_ok_def alignof_max_align_t_def PTRDIFF_MAX_def)
  from ok have sz: "unat (sizeof T) \<le> 2 ^ 63 - 1"
    by (simp add: cxx_type_ok_def PTRDIFF_MAX_def)
  have nov: "unat (offset a) + 2 ^ k - 1 < 2 ^ LENGTH(64)"
    using offN N al16 by simp
  have "unat (align_up (offset a) (2 ^ k)) = ((unat (offset a) + 2 ^ k - 1) div 2 ^ k) * 2 ^ k"
    using k nov by (intro unat_align_up) simp_all
  then show r: "unat (align_up (offset a) (alignof T)) =
      round_up (unat (offset a)) (unat (alignof T))"
    by (simp add: round_up_def al u2)
  have "round_up (unat (offset a)) (unat (alignof T)) \<le> unat (offset a) + 2 ^ k - 1"
    by (simp add: round_up_def ual)
  then have "unat (align_up (offset a) (alignof T)) + unat (sizeof T) < 2 ^ LENGTH(64)"
    using r offN N al16 sz by simp
  then have "unat (align_up (offset a) (alignof T) + sizeof T) =
      unat (align_up (offset a) (alignof T)) + unat (sizeof T)"
    by (simp only: unat_add_lem)
  then show "unat (align_up (offset a) (alignof T) + sizeof T) =
      round_up (unat (offset a)) (unat (alignof T)) + unat (sizeof T)"
    using r by simp
  show pos: "0 < unat (alignof T)" using ual by simp
  then show "unat (offset a) \<le> round_up (unat (offset a)) (unat (alignof T))"
    using round_up_is_least by blast
  show "unat (alignof T) dvd round_up (unat (offset a)) (unat (alignof T))"
    using pos round_up_is_least by blast
qed

lemma fits_iff:
  assumes "offset a \<le> N" and "layout_ok N a" and "cxx_type_ok T" and "make_static_asserts T"
  shows "fits N T a \<longleftrightarrow>
         round_up (unat (offset a)) (unat (alignof T)) + unat (sizeof T) \<le> unat N"
  using alloc_arith(2) [OF assms]
  by (simp add: fits_def word_less_nat_alt not_less)


section \<open>The ledger\<close>

lemma unat_inc_below:
  fixes d :: "'a::len word"
  assumes "d < m"
  shows "unat (d + 1) = Suc (unat d)"
proof -
  have "unat d < unat m"
    using assms by (simp add: word_less_nat_alt)
  moreover have "unat m < 2 ^ LENGTH('a)"
    by (rule unsigned_less)
  ultimately have "unat d + 1 < 2 ^ LENGTH('a)"
    by linarith
  then have "unat d + unat (1 :: 'a word) < 2 ^ LENGTH('a)"
    by simp
  then have "unat (d + 1) = unat d + unat (1 :: 'a word)"
    by (simp only: unat_add_lem)
  then show ?thesis by simp
qed

lemma map_filter_snoc:
  "List.map_filter f (xs @ [x]) =
     List.map_filter f xs @ (case f x of None \<Rightarrow> [] | Some y \<Rightarrow> [y])"
  by (simp add: List.map_filter_def split: option.splits)

lemma entry_object_object_entry [simp]: "entry_object (object_entry obj) = Some obj"
  by (simp add: entry_object_def object_entry_def)

lemma map_filter_entries [simp]:
  "List.map_filter entry_object (map object_entry objs) = objs"
  by (induction objs) (simp_all add: List.map_filter_def)

lemma call_dtor_object_entry [simp]:
  "call_dtor (object_entry obj) tr = Some (tr @ [destroyed obj])"
  by (simp add: call_dtor_def object_entry_def destroyed_def)

lemma reset_loop_zero [simp]: "reset_loop 0 ds tr = Some tr"
  by (simp add: reset_loop.simps)

lemma reset_loop_entries:
  "unat i \<le> length ds \<Longrightarrow> take (unat i) ds = map object_entry objs \<Longrightarrow>
   reset_loop i ds tr = Some (tr @ map destroyed (rev objs))"
proof (induction objs arbitrary: i tr rule: rev_induct)
  case Nil
  then have "unat i = 0" by (cases ds) auto
  then have "i = 0" by (simp add: unat_eq_0)
  then show ?case by simp
next
  case (snoc x xs)
  from snoc.prems have len: "unat i = Suc (length xs)"
    by (metis length_append_singleton length_map length_take min.absorb2)
  then have "i \<noteq> 0" by (cases "i = 0") simp_all
  then have pos: "0 < i" by (simp add: word_greater_zero_iff)
  have dec: "unat (i - 1) = length xs"
    using len pos by (simp add: unat_minus_one)
  have inr: "unat (i - 1) < length ds"
    using dec len snoc.prems(1) by simp
  have "ds ! length xs = take (unat i) ds ! length xs"
    using len by simp
  then have nth: "ds ! unat (i - 1) = object_entry x"
    using snoc.prems(2) dec by (simp add: nth_append)
  have "take (unat (i - 1)) ds = take (length xs) (take (unat i) ds)"
    using dec len by (simp add: min_def)
  then have tk: "take (unat (i - 1)) ds = map object_entry xs"
    using snoc.prems(2) by simp
  have "reset_loop (i - 1) ds (tr @ [destroyed x]) =
      Some ((tr @ [destroyed x]) @ map destroyed (rev xs))"
    using inr tk by (intro snoc.IH) simp_all
  then show ?case
    using pos inr nth by (subst reset_loop.simps) simp
qed


section \<open>The invariant\<close>

lemma arena_inv_init: "offset (FixedArena_init MaxDtors buf) = 0 \<and>
    dtor_count (FixedArena_init MaxDtors buf) = 0 \<and>
    arena_inv N MaxDtors (FixedArena_init MaxDtors buf)"
  by (simp add: arena_inv_def FixedArena_init_def ledger_def live_objects_def List.map_filter_def)

lemma ledger_push:
  assumes len: "length (dtors a) = unat MaxDtors" and room: "dtor_count a < MaxDtors"
  shows "ledger (a\<lparr>offset := x, dtors := (dtors a)[unat (dtor_count a) := e],
                    dtor_count := dtor_count a + 1\<rparr>) = ledger a @ [e]"
proof -
  have n: "unat (dtor_count a) < length (dtors a)"
    using len room by (simp add: word_less_nat_alt)
  have "unat (dtor_count a + 1) = Suc (unat (dtor_count a))"
    using room by (rule unat_inc_below)
  then show ?thesis
    using n by (simp add: ledger_def take_Suc_conv_app_nth)
qed

lemma ledger_offset [simp]: "ledger (a\<lparr>offset := x\<rparr>) = ledger a"
  by (simp add: ledger_def)

lemma live_objects_offset [simp]: "live_objects (a\<lparr>offset := x\<rparr>) = live_objects a"
  by (simp add: live_objects_def)

lemma arena_inv_push:
  fixes T :: cxx_type and p :: addr
  assumes inv: "arena_inv N MaxDtors a" and room: "dtor_count a < MaxDtors" and x: "x \<le> N"
  defines "a' \<equiv> a\<lparr>offset := x,
      dtors := (dtors a)[unat (dtor_count a) := \<lparr>fn = Destroy T, ptr = Some p\<rparr>],
      dtor_count := dtor_count a + 1\<rparr>"
  shows "arena_inv N MaxDtors a'" and "live_objects a' = live_objects a @ [(T, p)]"
proof -
  from inv have len: "length (dtors a) = unat MaxDtors"
    and led: "ledger a = map object_entry (live_objects a)"
    by (simp_all add: arena_inv_def)
  have e: "\<lparr>fn = Destroy T, ptr = Some p\<rparr> = object_entry (T, p)"
    by (simp add: object_entry_def)
  have l': "ledger a' = ledger a @ [object_entry (T, p)]"
    unfolding a'_def e [symmetric] using len room by (rule ledger_push)
  then have "live_objects a' = List.map_filter entry_object (ledger a) @ [(T, p)]"
    by (simp add: live_objects_def map_filter_snoc)
  then show lo: "live_objects a' = live_objects a @ [(T, p)]"
    by (simp add: live_objects_def)
  have "dtor_count a + 1 \<le> MaxDtors"
    using room by (simp add: inc_le)
  then show "arena_inv N MaxDtors a'"
    using len x l' lo led by (simp add: arena_inv_def a'_def)
qed

lemma arena_inv_offset:
  "arena_inv N MaxDtors a \<Longrightarrow> x \<le> N \<Longrightarrow> arena_inv N MaxDtors (a\<lparr>offset := x\<rparr>)"
  by (simp add: arena_inv_def)

lemma fits_le: "fits N T a \<Longrightarrow> align_up (offset a) (alignof T) + sizeof T \<le> N"
  by (simp add: fits_def not_less)

text \<open>Every outcome of \<^verbatim>\<open>make\<close> leaves the invariant in place and the buffer where it is.\<close>

lemma make_inv:
  assumes "arena_inv N MaxDtors a" and "make N MaxDtors T c (a, tr) = (r, (a', tr'))"
  shows "arena_inv N MaxDtors a' \<and> buffer a' = buffer a"
  using assms
  by (cases rule: make_cases [of N T a MaxDtors c tr])
    (auto simp: arena_inv_push arena_inv_offset fits_le)

lemma make_layout:
  assumes "layout_ok N a" and "make N MaxDtors T c (a, tr) = (r, (a', tr'))"
  shows "layout_ok N a'"
  using assms
  by (cases rule: make_cases [of N T a MaxDtors c tr]) (auto simp: layout_ok_def)

text \<open>What \<^verbatim>\<open>make\<close> does to the live objects.\<close>

lemma make_live_objects:
  assumes "arena_inv N MaxDtors a" and "make N MaxDtors T c (a, tr) = (r, (a', tr'))"
  shows "live_objects a' =
     live_objects a @ (case r of Returns (Some p) \<Rightarrow> [(T, p)] | _ \<Rightarrow> [])"
  using assms
  by (cases rule: make_cases [of N T a MaxDtors c tr]) (auto simp: arena_inv_push fits_le)

section \<open>What \<^verbatim>\<open>reset\<close> does\<close>

lemma reset_inv:
  assumes "arena_inv N MaxDtors a"
  shows "reset (a, tr) =
     Some (a\<lparr>dtor_count := 0, offset := 0\<rparr>, tr @ map destroyed (rev (live_objects a)))"
proof -
  from assms have "unat (dtor_count a) \<le> length (dtors a)"
    and "take (unat (dtor_count a)) (dtors a) = map object_entry (live_objects a)"
    by (simp_all add: arena_inv_def ledger_def word_le_nat_alt)
  then have "reset_loop (dtor_count a) (dtors a) tr =
      Some (tr @ map destroyed (rev (live_objects a)))"
    by (rule reset_loop_entries)
  then show ?thesis
    by (simp add: reset_def)
qed

lemma arena_inv_reset:
  "arena_inv N MaxDtors a \<Longrightarrow> arena_inv N MaxDtors (a\<lparr>dtor_count := 0, offset := 0\<rparr>)"
  by (simp add: arena_inv_def ledger_def live_objects_def List.map_filter_def)

section \<open>The invariant holds in every state of a running program\<close>

lemma reachable_inv:
  assumes "reachable N MaxDtors buf w"
  shows "arena_inv N MaxDtors (fst w) \<and> buffer (fst w) = buf"
  using assms
proof (induction rule: reachable.induct)
  case (fresh tr)
  then show ?case
    using arena_inv_init [of MaxDtors buf N] by (simp add: FixedArena_init_def)
next
  case (made w T c r w')
  then show ?case
    using make_inv [of N MaxDtors "fst w" T c "snd w" r "fst w'" "snd w'"] by simp
next
  case (was_reset w w')
  then show ?case
    using reset_inv [of N MaxDtors "fst w" "snd w"] arena_inv_reset [of N MaxDtors "fst w"]
    by auto
qed

lemma reachable_layout:
  assumes "reachable N MaxDtors buf w" and "layout_ok N (FixedArena_init MaxDtors buf)"
  shows "layout_ok N (fst w)"
  using reachable_inv [OF assms(1)] assms(2)
  by (simp add: layout_ok_def FixedArena_init_def)

section \<open>Worked examples\<close>

lemmas eval_defs = make_def allocate_aligned_def push_dtor_def align_up_def Widget_def Let_def
  word_le_nat_alt word_less_nat_alt

lemma init_2: "FixedArena_init 2 4096 =
    \<lparr>buffer = 4096, offset = 0,
     dtors = [\<lparr>fn = Null_fn, ptr = None\<rparr>, \<lparr>fn = Null_fn, ptr = None\<rparr>], dtor_count = 0\<rparr>"
  by (simp add: FixedArena_init_def) (simp add: numeral_2_eq_2)

lemma two_widgets:
  "make_all 1024 2 [(Widget, Ctor_returns), (Widget, Ctor_returns)] (FixedArena_init 2 4096, []) =
     ([Returns (Some 4096), Returns (Some 4100)],
      widget_arena, [Constructed Widget 4096, Constructed Widget 4100])"
  by (simp add: init_2 eval_defs widget_arena_def)

lemma widget_arena_live: "live_objects widget_arena = [(Widget, 4096), (Widget, 4100)]"
  by (simp add: widget_arena_def ledger_def live_objects_def List.map_filter_def
      entry_object_def)

lemma widget_arena_inv: "arena_inv 1024 2 widget_arena"
  unfolding arena_inv_def widget_arena_live
  by (simp add: widget_arena_def ledger_def object_entry_def word_le_nat_alt)

section \<open>Reset and teardown\<close>

text \<open>
  Claim C6. In every state that satisfies the invariant of the class, \<open>reset\<close>
  returns; afterwards \<open>used\<close> is 0 and no object is live, and a second \<open>reset\<close> changes
  neither the arena nor the trace. On an arena that is already empty, \<open>reset\<close> changes
  nothing at all.
\<close>

theorem reset_succeeds_idempotent:
  assumes inv: "arena_inv N MaxDtors a"
  shows "reset (a, tr) \<noteq> None \<and>
         (\<forall>w'. reset (a, tr) = Some w' \<longrightarrow>
            used (fst w') = 0 \<and> dtor_count (fst w') = 0 \<and> live_objects (fst w') = [] \<and>
            reset w' = Some w') \<and>
         (used a = 0 \<and> dtor_count a = 0 \<longrightarrow> reset (a, tr) = Some (a, tr))"
proof -
  let ?a' = "a\<lparr>dtor_count := 0, offset := 0\<rparr>"
  let ?tr' = "tr @ map destroyed (rev (live_objects a))"
  have r: "reset (a, tr) = Some (?a', ?tr')"
    using inv by (rule reset_inv)
  have empty: "live_objects ?a' = []"
    by (simp add: live_objects_def ledger_def List.map_filter_def)
  have again: "reset (?a', ?tr') = Some (?a', ?tr')"
    by (simp add: reset_def)
  have noop: "reset (a, tr) = Some (a, tr)" if "used a = 0 \<and> dtor_count a = 0"
    using that by (simp add: reset_def used_def)
  show ?thesis
    using r empty again noop by (simp add: used_def)
qed

theorem reset_succeeds_idempotent_witness:
  "arena_inv 1024 2 widget_arena \<and>
   reset (widget_arena, []) \<noteq> None \<and>
   reset (widget_arena, []) =
     Some (widget_arena\<lparr>dtor_count := 0, offset := 0\<rparr>,
           [Destroyed Widget 4100, Destroyed Widget 4096]) \<and>
   reset (widget_arena\<lparr>dtor_count := 0, offset := 0\<rparr>, []) =
     Some (widget_arena\<lparr>dtor_count := 0, offset := 0\<rparr>, [])"
proof -
  have inv: "arena_inv 1024 2 widget_arena"
    by (rule widget_arena_inv)
  have inv0: "arena_inv 1024 2 (widget_arena\<lparr>dtor_count := 0, offset := 0\<rparr>)"
    using inv by (rule arena_inv_reset)
  have "reset (widget_arena, []) \<noteq> None"
    using reset_succeeds_idempotent [OF inv, of "[]"] by blast
  moreover have "reset (widget_arena, []) =
     Some (widget_arena\<lparr>dtor_count := 0, offset := 0\<rparr>,
           [Destroyed Widget 4100, Destroyed Widget 4096])"
    by (simp add: reset_inv [OF inv] widget_arena_live destroyed_def)
  moreover have "reset (widget_arena\<lparr>dtor_count := 0, offset := 0\<rparr>, []) =
     Some (widget_arena\<lparr>dtor_count := 0, offset := 0\<rparr>, [])"
    using reset_succeeds_idempotent [OF inv0, of "[]"] by (simp add: used_def)
  ultimately show ?thesis
    using inv by blast
qed


text \<open>
  Claim C8. The destructor of the arena does what one call of \<open>reset\<close> does: from any
  state that satisfies the invariant it runs the finalizer of every live object, the
  youngest first, each once. The block that owns the arena runs it when it is left by a
  return and when it is left by an exception.
\<close>

theorem teardown_is_one_reset:
  assumes inv: "arena_inv N MaxDtors a"
  shows "FixedArena_destructor (a, tr) = map_option snd (reset (a, tr)) \<and>
         FixedArena_destructor (a, tr) = Some (tr @ map destroyed (rev (live_objects a))) \<and>
         leave_scope (Returns v, (a, tr)) =
           Some (Returns v, tr @ map destroyed (rev (live_objects a))) \<and>
         leave_scope (Throws, (a, tr)) =
           Some (Throws, tr @ map destroyed (rev (live_objects a)))"
proof -
  have r: "reset (a, tr) =
      Some (a\<lparr>dtor_count := 0, offset := 0\<rparr>, tr @ map destroyed (rev (live_objects a)))"
    using inv by (rule reset_inv)
  then have d: "FixedArena_destructor (a, tr) = Some (tr @ map destroyed (rev (live_objects a)))"
    by (simp add: FixedArena_destructor_def)
  have m: "FixedArena_destructor (a, tr) = map_option snd (reset (a, tr))"
    by (simp add: FixedArena_destructor_def split: option.splits)
  have l1: "leave_scope (Returns v, (a, tr)) =
      Some (Returns v, tr @ map destroyed (rev (live_objects a)))"
    by (simp add: leave_scope_def d)
  have l2: "leave_scope (Throws, (a, tr)) =
      Some (Throws, tr @ map destroyed (rev (live_objects a)))"
    by (simp add: leave_scope_def d)
  show ?thesis
    using d m l1 l2 by blast
qed

theorem teardown_is_one_reset_witness:
  "arena_inv 1024 2 widget_arena \<and>
   FixedArena_destructor (widget_arena, []) = map_option snd (reset (widget_arena, [])) \<and>
   FixedArena_destructor (widget_arena, []) = Some [Destroyed Widget 4100, Destroyed Widget 4096] \<and>
   leave_scope (Returns (0::int), (widget_arena, [])) =
     Some (Returns 0, [Destroyed Widget 4100, Destroyed Widget 4096]) \<and>
   leave_scope (Throws :: int outcome, (widget_arena, [])) =
     Some (Throws, [Destroyed Widget 4100, Destroyed Widget 4096])"
  using teardown_is_one_reset [OF widget_arena_inv, of "[]" "0::int"] widget_arena_inv
  by (simp add: widget_arena_live destroyed_def)

section \<open>Byte capacity and constructor exceptions\<close>

text \<open>
  Claim C2, as the code has it. For a supported type \<open>T\<close> requested at offset \<open>o \<le> N\<close>,
  the bytes are reserved exactly when \<open>round_up o (alignof T) + sizeof T \<le> N\<close>. When they
  are not, \<open>make\<close> returns the null pointer, constructs nothing and leaves the arena and
  the trace as they were, and in no other case does \<open>make\<close> return the null pointer. When
  they are, the offset advances to \<open>round_up o (alignof T) + sizeof T\<close> whatever follows,
  and the address is \<open>buffer + round_up o (alignof T)\<close>: if the constructor throws, \<open>make\<close>
  ends by the exception with the ledger as before; if it returns and the ledger has a
  free slot, the object is constructed and registered and its address returned; if it
  returns and the ledger is full, the object is constructed and the process aborted.
\<close>

theorem make_capacity_boundary:
  assumes off: "offset a \<le> N" and lay: "layout_ok N a"
    and ok: "cxx_type_ok T" and sa: "make_static_asserts T"
  shows "(\<not> round_up (unat (offset a)) (unat (alignof T)) + unat (sizeof T) \<le> unat N \<longrightarrow>
            allocate_aligned N (sizeof T) (alignof T) a = (None, a) \<and>
            make N MaxDtors T c (a, tr) = (Returns None, (a, tr))) \<and>
         (round_up (unat (offset a)) (unat (alignof T)) + unat (sizeof T) \<le> unat N \<longrightarrow>
            (\<exists>p x. unat p = unat (buffer a) + round_up (unat (offset a)) (unat (alignof T)) \<and>
               unat x = round_up (unat (offset a)) (unat (alignof T)) + unat (sizeof T) \<and>
               allocate_aligned N (sizeof T) (alignof T) a = (Some p, a\<lparr>offset := x\<rparr>) \<and>
               (c = Ctor_throws \<longrightarrow>
                  make N MaxDtors T c (a, tr) = (Throws, (a\<lparr>offset := x\<rparr>, tr))) \<and>
               (c = Ctor_returns \<and> dtor_count a < MaxDtors \<longrightarrow>
                  make N MaxDtors T c (a, tr) =
                    (Returns (Some p),
                     (a\<lparr>offset := x,
                        dtors := (dtors a)[unat (dtor_count a) := \<lparr>fn = Destroy T, ptr = Some p\<rparr>],
                        dtor_count := dtor_count a + 1\<rparr>,
                      tr @ [Constructed T p]))) \<and>
               (c = Ctor_returns \<and> MaxDtors \<le> dtor_count a \<longrightarrow>
                  make N MaxDtors T c (a, tr) =
                    (Aborts,
                     (a\<lparr>offset := x\<rparr>,
                      tr @ [Constructed T p, Puts ''Too many objects for destructor list'']))))) \<and>
         (fst (make N MaxDtors T c (a, tr)) = Returns None \<longleftrightarrow>
            \<not> round_up (unat (offset a)) (unat (alignof T)) + unat (sizeof T) \<le> unat N)"
proof -
  let ?R = "round_up (unat (offset a)) (unat (alignof T))"
  let ?al = "align_up (offset a) (alignof T)"
  note ar = alloc_arith [OF off lay ok sa]
  have f: "fits N T a \<longleftrightarrow> ?R + unat (sizeof T) \<le> unat N"
    using off lay ok sa by (rule fits_iff)
  have no: "allocate_aligned N (sizeof T) (alignof T) a = (None, a) \<and>
      make N MaxDtors T c (a, tr) = (Returns None, (a, tr))" if "\<not> fits N T a"
    using that make_no_fit [OF that, of MaxDtors c tr]
    by (simp add: allocate_aligned_def fits_def Let_def)
  have yes: "\<exists>p x. unat p = unat (buffer a) + ?R \<and> unat x = ?R + unat (sizeof T) \<and>
      allocate_aligned N (sizeof T) (alignof T) a = (Some p, a\<lparr>offset := x\<rparr>) \<and>
      (c = Ctor_throws \<longrightarrow>
         make N MaxDtors T c (a, tr) = (Throws, (a\<lparr>offset := x\<rparr>, tr))) \<and>
      (c = Ctor_returns \<and> dtor_count a < MaxDtors \<longrightarrow>
         make N MaxDtors T c (a, tr) =
           (Returns (Some p),
            (a\<lparr>offset := x,
               dtors := (dtors a)[unat (dtor_count a) := \<lparr>fn = Destroy T, ptr = Some p\<rparr>],
               dtor_count := dtor_count a + 1\<rparr>,
             tr @ [Constructed T p]))) \<and>
      (c = Ctor_returns \<and> MaxDtors \<le> dtor_count a \<longrightarrow>
         make N MaxDtors T c (a, tr) =
           (Aborts,
            (a\<lparr>offset := x\<rparr>,
             tr @ [Constructed T p, Puts ''Too many objects for destructor list''])))"
    if fit: "fits N T a"
  proof -
    from fit f have le: "?R + unat (sizeof T) \<le> unat N" by simp
    from lay have "unat (buffer a) + unat N < 2 ^ LENGTH(64)"
      by (simp add: layout_ok_def)
    then have "unat (buffer a) + unat ?al < 2 ^ LENGTH(64)"
      using le ar(1) by simp
    then have "unat (buffer a + ?al) = unat (buffer a) + unat ?al"
      by (simp only: unat_add_lem)
    then have p: "unat (buffer a + ?al) = unat (buffer a) + ?R"
      using ar(1) by simp
    have x: "unat (?al + sizeof T) = ?R + unat (sizeof T)"
      using ar(2) .
    have al: "allocate_aligned N (sizeof T) (alignof T) a =
        (Some (buffer a + ?al), a\<lparr>offset := ?al + sizeof T\<rparr>)"
      using fit by (simp add: allocate_aligned_def fits_def Let_def)
    show ?thesis
      using p x al make_throws [OF fit, of MaxDtors tr]
        make_returns [OF fit, of MaxDtors tr] make_aborts [OF fit, of MaxDtors tr]
      by (intro exI [of _ "buffer a + ?al"] exI [of _ "?al + sizeof T"]) simp
  qed
  have null: "fst (make N MaxDtors T c (a, tr)) = Returns None \<longleftrightarrow> \<not> fits N T a"
    by (cases rule: make_cases [of N T a MaxDtors c tr]) simp_all
  show ?thesis
    using f no yes null by simp
qed

lemma widget_ok: "cxx_type_ok Widget \<and> make_static_asserts Widget"
  by (simp add: cxx_type_ok_def make_static_asserts_def Widget_def is_pow2_def PTRDIFF_MAX_def
      alignof_max_align_t_def)

lemma widget_arena_layout: "layout_ok 8 widget_arena \<and> layout_ok 1024 widget_arena"
  by (simp add: layout_ok_def widget_arena_def PTRDIFF_MAX_def alignof_max_align_t_def)

lemma init_2_layout: "layout_ok 1024 (FixedArena_init 2 4096)"
  by (simp add: layout_ok_def FixedArena_init_def PTRDIFF_MAX_def alignof_max_align_t_def)

theorem make_capacity_boundary_witness:
  "offset widget_arena \<le> 8 \<and> layout_ok 8 widget_arena \<and>
   offset widget_arena \<le> 1024 \<and> layout_ok 1024 widget_arena \<and>
   offset (FixedArena_init 2 4096) \<le> 1024 \<and> layout_ok 1024 (FixedArena_init 2 4096) \<and>
   cxx_type_ok Widget \<and> make_static_asserts Widget \<and>
   \<not> round_up (unat (offset widget_arena)) (unat (alignof Widget)) + unat (sizeof Widget)
       \<le> unat (8 :: size_t) \<and>
   allocate_aligned 8 (sizeof Widget) (alignof Widget) widget_arena = (None, widget_arena) \<and>
   make 8 2 Widget Ctor_returns (widget_arena, []) = (Returns None, (widget_arena, [])) \<and>
   round_up (unat (offset (FixedArena_init 2 4096))) (unat (alignof Widget)) + unat (sizeof Widget)
       \<le> unat (1024 :: size_t) \<and>
   dtor_count (FixedArena_init 2 4096) < 2 \<and>
   allocate_aligned 1024 (sizeof Widget) (alignof Widget) (FixedArena_init 2 4096) =
     (Some 4096, (FixedArena_init 2 4096)\<lparr>offset := 4\<rparr>) \<and>
   make 1024 2 Widget Ctor_returns (FixedArena_init 2 4096, []) =
     (Returns (Some 4096),
      (\<lparr>buffer = 4096, offset = 4,
         dtors = [\<lparr>fn = Destroy Widget, ptr = Some 4096\<rparr>, \<lparr>fn = Null_fn, ptr = None\<rparr>],
         dtor_count = 1\<rparr>,
       [Constructed Widget 4096])) \<and>
   round_up (unat (offset widget_arena)) (unat (alignof Widget)) + unat (sizeof Widget)
       \<le> unat (1024 :: size_t) \<and>
   (2 :: size_t) \<le> dtor_count widget_arena \<and>
   make 1024 2 Widget Ctor_throws (widget_arena, []) =
     (Throws, (widget_arena\<lparr>offset := 12\<rparr>, [])) \<and>
   make 1024 2 Widget Ctor_returns (widget_arena, []) =
     (Aborts, (widget_arena\<lparr>offset := 12\<rparr>,
        [Constructed Widget 4104, Puts ''Too many objects for destructor list'']))"
proof -
  have o8: "offset widget_arena \<le> 8" and o1024: "offset widget_arena \<le> 1024"
    by (simp_all add: widget_arena_def)
  have l8: "layout_ok 8 widget_arena" and l1024: "layout_ok 1024 widget_arena"
    using widget_arena_layout by simp_all
  have oi: "offset (FixedArena_init 2 4096) \<le> 1024"
    by (simp add: FixedArena_init_def)
  note li = init_2_layout
  have ok: "cxx_type_ok Widget" and sa: "make_static_asserts Widget"
    using widget_ok by simp_all
  have no: "\<not> round_up (unat (offset widget_arena)) (unat (alignof Widget)) +
      unat (sizeof Widget) \<le> unat (8 :: size_t)"
    by (simp add: widget_arena_def Widget_def round_up_def)
  have yes: "round_up (unat (offset widget_arena)) (unat (alignof Widget)) +
      unat (sizeof Widget) \<le> unat (1024 :: size_t)"
    by (simp add: widget_arena_def Widget_def round_up_def)
  have yesi: "round_up (unat (offset (FixedArena_init 2 4096))) (unat (alignof Widget)) +
      unat (sizeof Widget) \<le> unat (1024 :: size_t)"
    by (simp add: FixedArena_init_def Widget_def round_up_def)
  have room: "dtor_count (FixedArena_init 2 4096) < 2"
    by (simp add: FixedArena_init_def)
  have full: "(2 :: size_t) \<le> dtor_count widget_arena"
    by (simp add: widget_arena_def)
  have small: "allocate_aligned 8 (sizeof Widget) (alignof Widget) widget_arena =
      (None, widget_arena) \<and>
      make 8 2 Widget Ctor_returns (widget_arena, []) = (Returns None, (widget_arena, []))"
    using make_capacity_boundary [OF o8 l8 ok sa, of 2 Ctor_returns "[]"] no by blast
  from make_capacity_boundary [OF oi li ok sa, of 2 Ctor_returns "[]"] yesi room
  obtain p x where
    p: "unat p = unat (buffer (FixedArena_init 2 4096)) +
      round_up (unat (offset (FixedArena_init 2 4096))) (unat (alignof Widget))"
    and x: "unat x = round_up (unat (offset (FixedArena_init 2 4096))) (unat (alignof Widget)) +
      unat (sizeof Widget)"
    and al: "allocate_aligned 1024 (sizeof Widget) (alignof Widget) (FixedArena_init 2 4096) =
      (Some p, (FixedArena_init 2 4096)\<lparr>offset := x\<rparr>)"
    and mk: "make 1024 2 Widget Ctor_returns (FixedArena_init 2 4096, []) =
      (Returns (Some p),
       ((FixedArena_init 2 4096)\<lparr>offset := x,
          dtors := (dtors (FixedArena_init 2 4096))[unat (dtor_count (FixedArena_init 2 4096)) :=
             \<lparr>fn = Destroy Widget, ptr = Some p\<rparr>],
          dtor_count := dtor_count (FixedArena_init 2 4096) + 1\<rparr>,
        [] @ [Constructed Widget p]))"
    by blast
  from p have p': "p = 4096"
    by (simp add: FixedArena_init_def Widget_def round_up_def word_unat_eq_iff)
  from x have x': "x = 4"
    by (simp add: FixedArena_init_def Widget_def round_up_def word_unat_eq_iff)
  have fresh: "allocate_aligned 1024 (sizeof Widget) (alignof Widget) (FixedArena_init 2 4096) =
      (Some 4096, (FixedArena_init 2 4096)\<lparr>offset := 4\<rparr>)"
    using al p' x' by simp
  have made: "make 1024 2 Widget Ctor_returns (FixedArena_init 2 4096, []) =
     (Returns (Some 4096),
      (\<lparr>buffer = 4096, offset = 4,
         dtors = [\<lparr>fn = Destroy Widget, ptr = Some 4096\<rparr>, \<lparr>fn = Null_fn, ptr = None\<rparr>],
         dtor_count = 1\<rparr>,
       [Constructed Widget 4096]))"
    using mk p' x' by (simp add: init_2)
  from make_capacity_boundary [OF o1024 l1024 ok sa, of 2 Ctor_throws "[]"] yes
  obtain q y where
    y: "unat y = round_up (unat (offset widget_arena)) (unat (alignof Widget)) +
      unat (sizeof Widget)"
    and th: "make 1024 2 Widget Ctor_throws (widget_arena, []) =
      (Throws, (widget_arena\<lparr>offset := y\<rparr>, []))"
    by blast
  from y have "y = 12"
    by (simp add: widget_arena_def Widget_def round_up_def word_unat_eq_iff)
  with th have thrown: "make 1024 2 Widget Ctor_throws (widget_arena, []) =
      (Throws, (widget_arena\<lparr>offset := 12\<rparr>, []))"
    by simp
  from make_capacity_boundary [OF o1024 l1024 ok sa, of 2 Ctor_returns "[]"] yes full
  obtain r z where
    r: "unat r = unat (buffer widget_arena) +
      round_up (unat (offset widget_arena)) (unat (alignof Widget))"
    and z: "unat z = round_up (unat (offset widget_arena)) (unat (alignof Widget)) +
      unat (sizeof Widget)"
    and ab: "make 1024 2 Widget Ctor_returns (widget_arena, []) =
      (Aborts, (widget_arena\<lparr>offset := z\<rparr>,
         [] @ [Constructed Widget r, Puts ''Too many objects for destructor list'']))"
    by blast
  from r have "r = 4104"
    by (simp add: widget_arena_def Widget_def round_up_def word_unat_eq_iff)
  moreover from z have "z = 12"
    by (simp add: widget_arena_def Widget_def round_up_def word_unat_eq_iff)
  ultimately have aborted: "make 1024 2 Widget Ctor_returns (widget_arena, []) =
      (Aborts, (widget_arena\<lparr>offset := 12\<rparr>,
         [Constructed Widget 4104, Puts ''Too many objects for destructor list'']))"
    using ab by simp
  show ?thesis
    using o8 l8 o1024 l1024 oi li ok sa no small yesi room fresh made yes full thrown aborted
    by blast
qed

text \<open>
  The claim C2 as the specification states it fails on the code: with the bytes of a
  \<open>Widget\<close> fitting, a throwing constructor makes the call fail without a null handle and
  with the offset advanced from 8 to 12, and a full ledger makes it end in
  \<^verbatim>\<open>::abort()\<close> with the object constructed.
\<close>

theorem make_capacity_boundary_counterexample:
  "round_up (unat (offset widget_arena)) (unat (alignof Widget)) + unat (sizeof Widget)
     \<le> unat (1024 :: size_t) \<and>
   make 1024 2 Widget Ctor_throws (widget_arena, []) =
     (Throws, (widget_arena\<lparr>offset := 12\<rparr>, [])) \<and>
   used (widget_arena\<lparr>offset := 12\<rparr>) \<noteq> used widget_arena \<and>
   make 1024 2 Widget Ctor_returns (widget_arena, []) =
     (Aborts, (widget_arena\<lparr>offset := 12\<rparr>,
        [Constructed Widget 4104, Puts ''Too many objects for destructor list'']))"
  by (simp add: eval_defs widget_arena_def round_up_def used_def)

text \<open>
  Claim C10. When the bytes of a \<open>T\<close> fit and the constructor of \<open>T\<close> throws, the
  exception leaves \<open>make\<close>, the ledger is as before, and \<open>used\<close> has advanced to the
  aligned offset plus \<open>sizeof T\<close>: the arena is not as it was before the call. The bytes
  are given back by the next \<open>reset\<close>.
\<close>

theorem make_constructor_throws:
  assumes off: "offset a \<le> N" and lay: "layout_ok N a"
    and ok: "cxx_type_ok T" and sa: "make_static_asserts T"
    and fit: "round_up (unat (offset a)) (unat (alignof T)) + unat (sizeof T) \<le> unat N"
  shows "\<exists>a'. make N MaxDtors T Ctor_throws (a, tr) = (Throws, (a', tr)) \<and>
           dtors a' = dtors a \<and> dtor_count a' = dtor_count a \<and>
           live_objects a' = live_objects a \<and>
           unat (used a') = round_up (unat (used a)) (unat (alignof T)) + unat (sizeof T) \<and>
           used a < used a' \<and> a' \<noteq> a \<and>
           (\<forall>w. reset (a', tr) = Some w \<longrightarrow> used (fst w) = 0)"
proof -
  let ?a' = "a\<lparr>offset := align_up (offset a) (alignof T) + sizeof T\<rparr>"
  have f: "fits N T a"
    using fits_iff [OF off lay ok sa] fit by simp
  then have m: "make N MaxDtors T Ctor_throws (a, tr) = (Throws, (?a', tr))"
    by (rule make_throws)
  have u: "unat (used ?a') = round_up (unat (used a)) (unat (alignof T)) + unat (sizeof T)"
    using alloc_arith(2) [OF off lay ok sa] by (simp add: used_def)
  have "0 < unat (sizeof T)"
    using ok by (simp add: cxx_type_ok_def unat_gt_0 word_greater_zero_iff)
  moreover have "unat (used a) \<le> round_up (unat (used a)) (unat (alignof T))"
    using alloc_arith(3) [OF off lay ok sa] by (simp add: used_def)
  ultimately have lt: "used a < used ?a'"
    using u by (simp add: word_less_nat_alt)
  have ne: "?a' \<noteq> a"
  proof
    assume "?a' = a"
    then have "offset ?a' = offset a"
      by (rule arg_cong)
    with lt show False
      by (simp add: used_def)
  qed
  have "live_objects ?a' = live_objects a"
    by simp
  moreover have "\<forall>w. reset (?a', tr) = Some w \<longrightarrow> used (fst w) = 0"
    by (auto simp: reset_def used_def split: option.splits)
  ultimately show ?thesis
    using m u lt ne by (intro exI [of _ ?a']) simp
qed

theorem make_constructor_throws_witness:
  "offset widget_arena \<le> 1024 \<and> layout_ok 1024 widget_arena \<and>
   cxx_type_ok Widget \<and> make_static_asserts Widget \<and>
   round_up (unat (offset widget_arena)) (unat (alignof Widget)) + unat (sizeof Widget)
       \<le> unat (1024 :: size_t) \<and>
   make 1024 2 Widget Ctor_throws (widget_arena, []) = (Throws, (widget_arena\<lparr>offset := 12\<rparr>, [])) \<and>
   used widget_arena = 8 \<and> used (widget_arena\<lparr>offset := 12\<rparr>) = 12 \<and>
   live_objects (widget_arena\<lparr>offset := 12\<rparr>) = live_objects widget_arena"
proof -
  have o: "offset widget_arena \<le> 1024"
    by (simp add: widget_arena_def)
  have l: "layout_ok 1024 widget_arena"
    using widget_arena_layout by simp
  have ok: "cxx_type_ok Widget" and sa: "make_static_asserts Widget"
    using widget_ok by simp_all
  have fit: "round_up (unat (offset widget_arena)) (unat (alignof Widget)) +
      unat (sizeof Widget) \<le> unat (1024 :: size_t)"
    by (simp add: widget_arena_def Widget_def round_up_def)
  from make_constructor_throws [OF o l ok sa fit, of 2 "[]"]
  obtain a' where m: "make 1024 2 Widget Ctor_throws (widget_arena, []) = (Throws, (a', []))"
    and d: "dtors a' = dtors widget_arena" "dtor_count a' = dtor_count widget_arena"
    and u: "unat (used a') =
      round_up (unat (used widget_arena)) (unat (alignof Widget)) + unat (sizeof Widget)"
    by blast
  from u have "unat (used a') = 12"
    by (simp add: used_def widget_arena_def Widget_def round_up_def)
  then have "used a' = 12"
    by (simp add: word_unat_eq_iff)
  moreover have "buffer a' = buffer widget_arena"
    using make_inv [OF widget_arena_inv m] by simp
  ultimately have "a' = widget_arena\<lparr>offset := 12\<rparr>"
    using d by (simp add: used_def)
  then have "make 1024 2 Widget Ctor_throws (widget_arena, []) =
      (Throws, (widget_arena\<lparr>offset := 12\<rparr>, []))"
    using m by simp
  moreover have "used widget_arena = 8"
    by (simp add: used_def widget_arena_def)
  moreover have "used (widget_arena\<lparr>offset := 12\<rparr>) = 12"
    by (simp add: used_def)
  moreover have "live_objects (widget_arena\<lparr>offset := 12\<rparr>) = live_objects widget_arena"
    by simp
  ultimately show ?thesis
    using o l ok sa fit by blast
qed

section \<open>Sequences of requests\<close>

lemma make_all_Cons_cases:
  assumes "make_all N MaxDtors ((T, c) # rs) (a, tr) = (os, w')"
  obtains
    (stop) "make N MaxDtors T c (a, tr) = (Aborts, w')" "os = [Aborts]"
  | (go) r a1 tr1 os' where "make N MaxDtors T c (a, tr) = (r, (a1, tr1))" "r \<noteq> Aborts"
      "make_all N MaxDtors rs (a1, tr1) = (os', w')" "os = r # os'"
proof (cases "make N MaxDtors T c (a, tr)")
  case (fields r a1 tr1)
  show ?thesis
  proof (cases "r = Aborts")
    case True
    with fields assms show ?thesis
      by (intro stop) simp_all
  next
    case False
    obtain os' w'' where rest: "make_all N MaxDtors rs (a1, tr1) = (os', w'')"
      by (cases "make_all N MaxDtors rs (a1, tr1)")
    with fields False assms have "os = r # os'" "w'' = w'"
      by (cases r; simp)+
    with fields False rest show ?thesis
      by (intro go [of r a1 tr1 os']) simp_all
  qed
qed

lemma made_objects_Cons:
  "made_objects ((T, c) # rs) (r # os) =
     (case r of Returns (Some p) \<Rightarrow> [(T, p)] | _ \<Rightarrow> []) @ made_objects rs os"
  by (cases r; simp split: option.splits)

lemma made_objects_Nil [simp]: "made_objects rs [] = []"
  by (cases rs) auto

lemma make_all_inv:
  assumes "arena_inv N MaxDtors a" and "make_all N MaxDtors reqs (a, tr) = (os, (a', tr'))"
  shows "arena_inv N MaxDtors a' \<and> buffer a' = buffer a"
  using assms
proof (induction reqs arbitrary: a tr os)
  case Nil
  then show ?case by simp
next
  case (Cons rq rs)
  obtain T c where rq: "rq = (T, c)" by (cases rq)
  from Cons.prems(2) [unfolded rq] show ?case
  proof (cases rule: make_all_Cons_cases)
    case stop
    then show ?thesis using make_inv [OF Cons.prems(1)] by blast
  next
    case (go r a1 tr1 os')
    from make_inv [OF Cons.prems(1) go(1)]
    have "arena_inv N MaxDtors a1" and "buffer a1 = buffer a" by simp_all
    with Cons.IH [OF _ go(3)] show ?thesis by simp
  qed
qed

lemma make_all_layout:
  assumes "layout_ok N a" and "make_all N MaxDtors reqs (a, tr) = (os, (a', tr'))"
  shows "layout_ok N a'"
  using assms
proof (induction reqs arbitrary: a tr os)
  case Nil
  then show ?case by simp
next
  case (Cons rq rs)
  obtain T c where rq: "rq = (T, c)" by (cases rq)
  from Cons.prems(2) [unfolded rq] show ?case
  proof (cases rule: make_all_Cons_cases)
    case stop
    then show ?thesis using make_layout [OF Cons.prems(1)] by blast
  next
    case (go r a1 tr1 os')
    from make_layout [OF Cons.prems(1) go(1)] Cons.IH [OF _ go(3)] show ?thesis by simp
  qed
qed

lemma make_all_live_objects:
  assumes "arena_inv N MaxDtors a" and "make_all N MaxDtors reqs (a, tr) = (os, (a', tr'))"
  shows "live_objects a' = live_objects a @ made_objects reqs os"
  using assms
proof (induction reqs arbitrary: a tr os)
  case Nil
  then show ?case by simp
next
  case (Cons rq rs)
  obtain T c where rq: "rq = (T, c)" by (cases rq)
  from Cons.prems(2) [unfolded rq] show ?case
  proof (cases rule: make_all_Cons_cases)
    case stop
    then show ?thesis
      using make_live_objects [OF Cons.prems(1) stop(1)] by (simp add: rq made_objects_Cons)
  next
    case (go r a1 tr1 os')
    from make_inv [OF Cons.prems(1) go(1)] have inv1: "arena_inv N MaxDtors a1" by simp
    from make_live_objects [OF Cons.prems(1) go(1)] Cons.IH [OF inv1 go(3)] go(4)
    show ?thesis by (simp add: rq made_objects_Cons)
  qed
qed

lemma constructed_append [simp]: "constructed (xs @ ys) = constructed xs @ constructed ys"
  by (induction xs rule: constructed.induct) simp_all

lemma make_trace:
  assumes "make N MaxDtors T c (a, tr) = (r, (a', tr'))" and "r \<noteq> Aborts"
  shows "\<exists>new. tr' = tr @ new \<and>
           constructed new = (case r of Returns (Some p) \<Rightarrow> [(T, p)] | _ \<Rightarrow> [])"
  using assms
  by (cases rule: make_cases [of N T a MaxDtors c tr]) auto

lemma make_all_trace:
  assumes "make_all N MaxDtors reqs (a, tr) = (os, (a', tr'))" and "Aborts \<notin> set os"
  shows "\<exists>new. tr' = tr @ new \<and> constructed new = made_objects reqs os"
  using assms
proof (induction reqs arbitrary: a tr os)
  case Nil
  then show ?case by simp
next
  case (Cons rq rs)
  obtain T c where rq: "rq = (T, c)" by (cases rq)
  from Cons.prems(1) [unfolded rq] show ?case
  proof (cases rule: make_all_Cons_cases)
    case stop
    with Cons.prems(2) show ?thesis by simp
  next
    case (go r a1 tr1 os')
    from make_trace [OF go(1) go(2)] obtain new1 where
      n1: "tr1 = tr @ new1"
        "constructed new1 = (case r of Returns (Some p) \<Rightarrow> [(T, p)] | _ \<Rightarrow> [])"
      by blast
    from Cons.prems(2) go(4) have "Aborts \<notin> set os'" by simp
    from Cons.IH [OF go(3) this] obtain new2 where
      n2: "tr' = tr1 @ new2" "constructed new2 = made_objects rs os'"
      by blast
    have "tr' = tr @ (new1 @ new2)"
      using n1(1) n2(1) by simp
    moreover have "constructed (new1 @ new2) = made_objects reqs' os" if "reqs' = rq # rs" for reqs'
      using that n1(2) n2(2) go(4) by (simp add: rq made_objects_Cons)
    ultimately show ?thesis by blast
  qed
qed

lemma live_objects_empty: "dtor_count a = 0 \<Longrightarrow> live_objects a = []"
  by (simp add: live_objects_def ledger_def List.map_filter_def)

text \<open>
  Claim C3. Let a sequence of requests run from an arena with an empty ledger (fresh,
  or just reset) without the process being aborted. The objects it constructed are those
  whose handles \<open>make\<close> returned, in that order, and \<open>reset\<close> then runs exactly their
  finalizers, in the reverse order, each once.
\<close>

theorem reset_finalizes_in_reverse:
  assumes inv: "arena_inv N MaxDtors a" and empty: "dtor_count a = 0"
    and run: "make_all N MaxDtors reqs (a, tr) = (os, (a', tr'))"
    and alive: "Aborts \<notin> set os"
  shows "\<exists>new. tr' = tr @ new \<and> constructed new = made_objects reqs os \<and>
           reset (a', tr') =
             Some (a'\<lparr>dtor_count := 0, offset := 0\<rparr>,
                   tr' @ map destroyed (rev (constructed new)))"
proof -
  from make_all_trace [OF run alive] obtain new where
    new: "tr' = tr @ new" "constructed new = made_objects reqs os"
    by blast
  have inv': "arena_inv N MaxDtors a'"
    using make_all_inv [OF inv run] by simp
  have "live_objects a' = made_objects reqs os"
    using make_all_live_objects [OF inv run] live_objects_empty [OF empty] by simp
  then have "reset (a', tr') =
      Some (a'\<lparr>dtor_count := 0, offset := 0\<rparr>, tr' @ map destroyed (rev (constructed new)))"
    using reset_inv [OF inv', of tr'] new(2) by simp
  with new show ?thesis by blast
qed

lemma init_3: "FixedArena_init 3 4096 =
    \<lparr>buffer = 4096, offset = 0,
     dtors = [\<lparr>fn = Null_fn, ptr = None\<rparr>, \<lparr>fn = Null_fn, ptr = None\<rparr>,
              \<lparr>fn = Null_fn, ptr = None\<rparr>], dtor_count = 0\<rparr>"
  by (simp add: FixedArena_init_def) (simp add: numeral_3_eq_3)

lemma three_widgets_run:
  "make_all 1024 3 three_widgets (FixedArena_init 3 4096, []) =
     ([Returns (Some 4096), Returns (Some 4100), Returns (Some 4104)],
      \<lparr>buffer = 4096, offset = 12,
       dtors = [\<lparr>fn = Destroy Widget, ptr = Some 4096\<rparr>, \<lparr>fn = Destroy Widget, ptr = Some 4100\<rparr>,
                \<lparr>fn = Destroy Widget, ptr = Some 4104\<rparr>],
       dtor_count = 3\<rparr>,
      [Constructed Widget 4096, Constructed Widget 4100, Constructed Widget 4104])"
  by (simp add: three_widgets_def init_3 eval_defs)

theorem reset_finalizes_in_reverse_witness:
  "arena_inv 1024 3 (FixedArena_init 3 4096) \<and> dtor_count (FixedArena_init 3 4096) = 0 \<and>
   fst (make_all 1024 3 three_widgets (FixedArena_init 3 4096, [])) =
     [Returns (Some 4096), Returns (Some 4100), Returns (Some 4104)] \<and>
   Aborts \<notin> set (fst (make_all 1024 3 three_widgets (FixedArena_init 3 4096, []))) \<and>
   used (fst (snd (make_all 1024 3 three_widgets (FixedArena_init 3 4096, [])))) = 12 \<and>
   map_option snd (reset (snd (make_all 1024 3 three_widgets (FixedArena_init 3 4096, [])))) =
     Some [Constructed Widget 4096, Constructed Widget 4100, Constructed Widget 4104,
           Destroyed Widget 4104, Destroyed Widget 4100, Destroyed Widget 4096]"
proof -
  have inv: "arena_inv 1024 3 (FixedArena_init 3 4096)"
    and empty: "dtor_count (FixedArena_init 3 4096) = 0"
    using arena_inv_init [of 3 4096 1024] by simp_all
  have alive: "Aborts \<notin> set [Returns (Some 4096), Returns (Some 4100), Returns (Some (4104 :: addr))]"
    by simp
  from reset_finalizes_in_reverse [OF inv empty three_widgets_run alive]
  obtain new where new: "[Constructed Widget 4096, Constructed Widget 4100,
        Constructed Widget 4104] = [] @ new"
    and r: "reset (\<lparr>buffer = 4096, offset = 12,
       dtors = [\<lparr>fn = Destroy Widget, ptr = Some 4096\<rparr>, \<lparr>fn = Destroy Widget, ptr = Some 4100\<rparr>,
                \<lparr>fn = Destroy Widget, ptr = Some 4104\<rparr>],
       dtor_count = 3\<rparr>, [Constructed Widget 4096, Constructed Widget 4100, Constructed Widget 4104])
      = Some (\<lparr>buffer = 4096, offset = 12,
       dtors = [\<lparr>fn = Destroy Widget, ptr = Some 4096\<rparr>, \<lparr>fn = Destroy Widget, ptr = Some 4100\<rparr>,
                \<lparr>fn = Destroy Widget, ptr = Some 4104\<rparr>],
       dtor_count = 3\<rparr>\<lparr>dtor_count := 0, offset := 0\<rparr>,
        [Constructed Widget 4096, Constructed Widget 4100, Constructed Widget 4104] @
        map destroyed (rev (constructed new)))"
    by blast
  from new have "new = [Constructed Widget 4096, Constructed Widget 4100,
      Constructed Widget 4104]"
    by simp
  then have "constructed new = [(Widget, 4096), (Widget, 4100), (Widget, 4104)]"
    by simp
  with r show ?thesis
    using inv empty by (simp add: three_widgets_run used_def destroyed_def)
qed

section \<open>Addresses\<close>

lemma alignof_dvd_max:
  assumes ok: "cxx_type_ok T" and sa: "make_static_asserts T"
  shows "unat (alignof T) dvd 16"
proof -
  from ok obtain k where k: "k < 64" and al: "alignof T = 2 ^ k"
    using is_pow2_exp [of "alignof T"] by (auto simp: cxx_type_ok_def)
  have ual: "unat (alignof T) = 2 ^ k"
    using k by (simp add: al unat_2p)
  from sa have "unat (alignof T) \<le> 16"
    by (simp add: make_static_asserts_def alignof_max_align_t_def word_le_nat_alt)
  then have "(2::nat) ^ k \<le> 2 ^ 4"
    using ual by simp
  then have "k \<le> 4"
    by (simp only: power_increasing_iff)
  then have "(2::nat) ^ k dvd 2 ^ 4"
    by (rule le_imp_power_dvd)
  then show ?thesis
    using ual by simp
qed

lemma make_address:
  assumes inv: "arena_inv N MaxDtors a" and lay: "layout_ok N a"
    and sup: "supported T"
    and m: "make N MaxDtors T c (a, tr) = (Returns (Some p), (a', tr'))"
  shows "unat p = unat (buffer a) + round_up (unat (offset a)) (unat (alignof T))"
    and "unat (offset a') = round_up (unat (offset a)) (unat (alignof T)) + unat (sizeof T)"
    and "unat (offset a') \<le> unat N"
    and "p mod alignof T = 0"
proof -
  from inv have off: "offset a \<le> N" by (simp add: arena_inv_def)
  from sup have ok: "cxx_type_ok T" and sa: "make_static_asserts T"
    by (simp_all add: supported_def)
  note ar = alloc_arith [OF off lay ok sa]
  from m have f: "fits N T a"
    and p: "p = buffer a + align_up (offset a) (alignof T)"
    and o': "offset a' = align_up (offset a) (alignof T) + sizeof T"
    by (cases rule: make_cases [of N T a MaxDtors c tr]; simp)+
  from f have le: "round_up (unat (offset a)) (unat (alignof T)) + unat (sizeof T) \<le> unat N"
    using fits_iff [OF off lay ok sa] by simp
  show u': "unat (offset a') = round_up (unat (offset a)) (unat (alignof T)) + unat (sizeof T)"
    using o' ar(2) by simp
  show "unat (offset a') \<le> unat N"
    using u' le by simp
  from lay have "unat (buffer a) + unat N < 2 ^ LENGTH(64)"
    by (simp add: layout_ok_def)
  then have "unat (buffer a) + unat (align_up (offset a) (alignof T)) < 2 ^ LENGTH(64)"
    using le ar(1) by simp
  then have "unat (buffer a + align_up (offset a) (alignof T)) =
      unat (buffer a) + unat (align_up (offset a) (alignof T))"
    by (simp only: unat_add_lem)
  then show up: "unat p = unat (buffer a) + round_up (unat (offset a)) (unat (alignof T))"
    using p ar(1) by simp
  from lay have "unat (buffer a mod 16) = 0"
    by (simp add: layout_ok_def alignof_max_align_t_def)
  then have "unat (buffer a) mod 16 = 0"
    by (simp add: unat_mod)
  then have "16 dvd unat (buffer a)"
    by (simp add: dvd_eq_mod_eq_0)
  then have "unat (alignof T) dvd unat (buffer a)"
    using alignof_dvd_max [OF ok sa] by (rule dvd_trans [rotated])
  then have "unat (alignof T) dvd unat p"
    using ar(4) up by simp
  then have "unat (p mod alignof T) = 0"
    by (simp add: unat_mod dvd_eq_mod_eq_0)
  then show "p mod alignof T = 0"
    by (simp add: unat_eq_0)
qed

lemma make_offset_mono:
  assumes inv: "arena_inv N MaxDtors a" and lay: "layout_ok N a"
    and sup: "supported T"
    and m: "make N MaxDtors T c (a, tr) = (r, (a', tr'))"
  shows "unat (offset a) \<le> unat (offset a')"
proof -
  from inv have off: "offset a \<le> N" by (simp add: arena_inv_def)
  from sup have ok: "cxx_type_ok T" and sa: "make_static_asserts T"
    by (simp_all add: supported_def)
  note ar = alloc_arith [OF off lay ok sa]
  have "unat (offset a) \<le> unat (align_up (offset a) (alignof T) + sizeof T)"
    using ar(2) ar(3) by simp
  with m show ?thesis
    by (cases rule: make_cases [of N T a MaxDtors c tr]) auto
qed

lemma make_all_offset_mono:
  assumes "arena_inv N MaxDtors a" and "layout_ok N a"
    and "list_all (\<lambda>rq. supported (fst rq)) reqs"
    and "make_all N MaxDtors reqs (a, tr) = (os, (a', tr'))"
  shows "unat (offset a) \<le> unat (offset a')"
  using assms
proof (induction reqs arbitrary: a tr os)
  case Nil
  then show ?case by simp
next
  case (Cons rq rs)
  obtain T c where rq: "rq = (T, c)" by (cases rq)
  from Cons.prems(3) have sup: "supported T" and sups: "list_all (\<lambda>rq. supported (fst rq)) rs"
    by (simp_all add: rq)
  from Cons.prems(4) [unfolded rq] show ?case
  proof (cases rule: make_all_Cons_cases)
    case stop
    then show ?thesis
      using make_offset_mono [OF Cons.prems(1,2) sup] by blast
  next
    case (go r a1 tr1 os')
    have "unat (offset a) \<le> unat (offset a1)"
      using make_offset_mono [OF Cons.prems(1,2) sup go(1)] .
    moreover have "unat (offset a1) \<le> unat (offset a')"
      using make_inv [OF Cons.prems(1) go(1)] make_layout [OF Cons.prems(2) go(1)] sups go(3)
      by (intro Cons.IH) simp_all
    ultimately show ?thesis by simp
  qed
qed

text \<open>
  Where the handles of a run point: at a multiple of the alignment of their type, at or
  beyond the first free byte before the run, and with their last byte before the first
  free byte after it.
\<close>

lemma make_all_addresses:
  assumes "arena_inv N MaxDtors a" and "layout_ok N a"
    and "list_all (\<lambda>rq. supported (fst rq)) reqs"
    and "make_all N MaxDtors reqs (a, tr) = (os, (a', tr'))"
    and "j < length os" and "os ! j = Returns (Some q)"
  shows "q mod alignof (fst (reqs ! j)) = 0 \<and>
         unat (buffer a) + unat (offset a) \<le> unat q \<and>
         unat q + unat (sizeof (fst (reqs ! j))) \<le> unat (buffer a) + unat (offset a')"
  using assms
proof (induction reqs arbitrary: j a tr os)
  case Nil
  then show ?case by simp
next
  case (Cons rq rs)
  obtain T c where rq: "rq = (T, c)" by (cases rq)
  from Cons.prems(3) have sup: "supported T" and sups: "list_all (\<lambda>rq. supported (fst rq)) rs"
    by (simp_all add: rq)
  from Cons.prems(4) [unfolded rq] show ?case
  proof (cases rule: make_all_Cons_cases)
    case stop
    with Cons.prems(5,6) show ?thesis by simp
  next
    case (go r a1 tr1 os')
    have inv1: "arena_inv N MaxDtors a1" and buf1: "buffer a1 = buffer a"
      using make_inv [OF Cons.prems(1) go(1)] by simp_all
    have lay1: "layout_ok N a1"
      using make_layout [OF Cons.prems(2) go(1)] .
    have mono1: "unat (offset a) \<le> unat (offset a1)"
      using make_offset_mono [OF Cons.prems(1,2) sup go(1)] .
    have mono2: "unat (offset a1) \<le> unat (offset a')"
      using make_all_offset_mono [OF inv1 lay1 sups go(3)] .
    show ?thesis
    proof (cases j)
      case 0
      with Cons.prems(6) go(4) have r: "r = Returns (Some q)" by simp
      note ad = make_address [OF Cons.prems(1,2) sup go(1) [unfolded r]]
      have "unat (offset a) \<le> round_up (unat (offset a)) (unat (alignof T))"
        using Cons.prems(1,2) sup alloc_arith(3) [of a N T]
        by (simp add: arena_inv_def supported_def)
      then show ?thesis
        using 0 ad mono2 by (simp add: rq)
    next
      case (Suc j')
      with Cons.prems(5,6) go(4) have "j' < length os'" "os' ! j' = Returns (Some q)"
        by simp_all
      from Cons.IH [OF inv1 lay1 sups go(3) this]
      show ?thesis
        using Suc buf1 mono1 by (simp add: rq)
    qed
  qed
qed

lemma three_widgets_supported: "list_all (\<lambda>rq. supported (fst rq)) three_widgets"
  using widget_ok by (simp add: three_widgets_def supported_def)

lemma init_3_layout: "layout_ok 1024 (FixedArena_init 3 4096)"
  by (simp add: layout_ok_def FixedArena_init_def PTRDIFF_MAX_def alignof_max_align_t_def)

text \<open>
  Claim C4. In a run of requests for supported types, from any state that satisfies the
  invariant (the fresh arena does, and \<open>make\<close> and \<open>reset\<close> keep it), every handle that
  \<open>make\<close> returns is a multiple of the alignment of its type, and the object lies in the
  buffer: at or after its first byte and before the byte at \<open>buffer + N\<close>.
\<close>

theorem make_addresses_aligned_in_buffer:
  assumes inv: "arena_inv N MaxDtors a" and lay: "layout_ok N a"
    and sups: "list_all (\<lambda>rq. supported (fst rq)) reqs"
    and run: "make_all N MaxDtors reqs (a, tr) = (os, (a', tr'))"
    and j: "j < length os" and q: "os ! j = Returns (Some q)"
  shows "q mod alignof (fst (reqs ! j)) = 0 \<and>
         unat (buffer a) \<le> unat q \<and>
         unat q < unat (buffer a) + unat N \<and>
         unat q + unat (sizeof (fst (reqs ! j))) \<le> unat (buffer a) + unat N"
proof -
  note ad = make_all_addresses [OF inv lay sups run j q]
  have "arena_inv N MaxDtors a'"
    using make_all_inv [OF inv run] by simp
  then have top: "unat (offset a') \<le> unat N"
    by (simp add: arena_inv_def word_le_nat_alt)
  have "length os \<le> length reqs"
    using run
  proof (induction reqs arbitrary: a tr os)
    case Nil
    then show ?case by simp
  next
    case (Cons rq rs)
    obtain T c where rq: "rq = (T, c)" by (cases rq)
    from Cons.prems [unfolded rq] show ?case
    proof (cases rule: make_all_Cons_cases)
      case stop
      then show ?thesis by simp
    next
      case (go r a1 tr1 os')
      with Cons.IH [OF go(3)] show ?thesis by simp
    qed
  qed
  with j have "j < length reqs" by simp
  with sups have "supported (fst (reqs ! j))"
    by (simp add: list_all_length)
  then have "0 < unat (sizeof (fst (reqs ! j)))"
    by (simp add: supported_def cxx_type_ok_def unat_gt_0 word_greater_zero_iff)
  with ad top show ?thesis by simp
qed

theorem make_addresses_aligned_in_buffer_witness:
  "arena_inv 1024 3 (FixedArena_init 3 4096) \<and> layout_ok 1024 (FixedArena_init 3 4096) \<and>
   list_all (\<lambda>rq. supported (fst rq)) three_widgets \<and>
   fst (make_all 1024 3 three_widgets (FixedArena_init 3 4096, [])) ! 2 = Returns (Some 4104) \<and>
   (4104 :: addr) mod alignof (fst (three_widgets ! 2)) = 0 \<and>
   unat (buffer (FixedArena_init 3 4096)) \<le> unat (4104 :: addr) \<and>
   unat (4104 :: addr) < unat (buffer (FixedArena_init 3 4096)) + unat (1024 :: size_t)"
proof -
  have inv: "arena_inv 1024 3 (FixedArena_init 3 4096)"
    using arena_inv_init [of 3 4096 1024] by simp
  have j: "2 < length [Returns (Some 4096), Returns (Some 4100), Returns (Some (4104 :: addr))]"
    by simp
  have q: "[Returns (Some 4096), Returns (Some 4100), Returns (Some (4104 :: addr))] ! 2 =
      Returns (Some 4104)"
    by simp
  from make_addresses_aligned_in_buffer
    [OF inv init_3_layout three_widgets_supported three_widgets_run j q]
  show ?thesis
    using inv init_3_layout three_widgets_supported by (simp add: three_widgets_run)
qed

text \<open>
  Claim C5. Of two handles that \<open>make\<close> returned in one run of requests (no \<open>reset\<close> in
  between), the later one points at or beyond the end of the earlier object: the two
  objects do not overlap.
\<close>

theorem allocations_do_not_overlap:
  assumes inv: "arena_inv N MaxDtors a" and lay: "layout_ok N a"
    and sups: "list_all (\<lambda>rq. supported (fst rq)) reqs"
    and run: "make_all N MaxDtors reqs (a, tr) = (os, (a', tr'))"
    and ij: "i < j" and j: "j < length os"
    and p: "os ! i = Returns (Some p)" and q: "os ! j = Returns (Some q)"
  shows "unat p + unat (sizeof (fst (reqs ! i))) \<le> unat q"
  using assms
proof (induction reqs arbitrary: i j a tr os)
  case Nil
  then show ?case by simp
next
  case (Cons rq rs)
  obtain T c where rq: "rq = (T, c)" by (cases rq)
  from Cons.prems(3) have sup: "supported T" and sups: "list_all (\<lambda>rq. supported (fst rq)) rs"
    by (simp_all add: rq)
  from Cons.prems(5) obtain j' where j': "j = Suc j'"
    by (cases j) simp_all
  from Cons.prems(4) [unfolded rq] show ?case
  proof (cases rule: make_all_Cons_cases)
    case stop
    with Cons.prems(6) j' show ?thesis by simp
  next
    case (go r a1 tr1 os')
    have inv1: "arena_inv N MaxDtors a1" and buf1: "buffer a1 = buffer a"
      using make_inv [OF Cons.prems(1) go(1)] by simp_all
    have lay1: "layout_ok N a1"
      using make_layout [OF Cons.prems(2) go(1)] .
    from Cons.prems(6,8) go(4) j' have jq: "j' < length os'" "os' ! j' = Returns (Some q)"
      by simp_all
    show ?thesis
    proof (cases i)
      case 0
      with Cons.prems(7) go(4) have r: "r = Returns (Some p)" by simp
      note ad = make_address [OF Cons.prems(1,2) sup go(1) [unfolded r]]
      have "unat (buffer a1) + unat (offset a1) \<le> unat q"
        using make_all_addresses [OF inv1 lay1 sups go(3) jq] by simp
      then show ?thesis
        using 0 ad(1,2) buf1 by (simp add: rq)
    next
      case (Suc i')
      with Cons.prems(5,7) go(4) j' have "i' < j'" "os' ! i' = Returns (Some p)"
        by simp_all
      from Cons.IH [OF inv1 lay1 sups go(3) this(1) jq(1) this(2) jq(2)]
      show ?thesis
        using Suc by simp
    qed
  qed
qed

theorem allocations_do_not_overlap_witness:
  "arena_inv 1024 3 (FixedArena_init 3 4096) \<and> layout_ok 1024 (FixedArena_init 3 4096) \<and>
   list_all (\<lambda>rq. supported (fst rq)) three_widgets \<and>
   fst (make_all 1024 3 three_widgets (FixedArena_init 3 4096, [])) ! 0 = Returns (Some 4096) \<and>
   fst (make_all 1024 3 three_widgets (FixedArena_init 3 4096, [])) ! 2 = Returns (Some 4104) \<and>
   unat (4096 :: addr) + unat (sizeof (fst (three_widgets ! 0))) \<le> unat (4104 :: addr)"
proof -
  have inv: "arena_inv 1024 3 (FixedArena_init 3 4096)"
    using arena_inv_init [of 3 4096 1024] by simp
  have ij: "(0::nat) < 2"
    by simp
  have j: "2 < length [Returns (Some 4096), Returns (Some 4100), Returns (Some (4104 :: addr))]"
    by simp
  have p: "[Returns (Some 4096), Returns (Some 4100), Returns (Some (4104 :: addr))] ! 0 =
      Returns (Some 4096)"
    by simp
  have q: "[Returns (Some 4096), Returns (Some 4100), Returns (Some (4104 :: addr))] ! 2 =
      Returns (Some 4104)"
    by simp
  from allocations_do_not_overlap
    [OF inv init_3_layout three_widgets_supported three_widgets_run ij j p q]
  show ?thesis
    using inv init_3_layout three_widgets_supported by (simp add: three_widgets_run)
qed

section \<open>Replaying a run\<close>

lemma make_same_cursor:
  assumes sc: "same_cursor a b"
    and ma: "make N MaxDtors T c (a, tr) = (r, (a', tr'))"
    and mb: "make N MaxDtors T c (b, tr2) = (r2, (b', tr2'))"
  shows "r2 = r \<and> same_cursor a' b'"
proof -
  from sc have f: "fits N T b = fits N T a" and d: "dtor_count b = dtor_count a"
    and o: "offset b = offset a" and bf: "buffer b = buffer a"
    by (simp_all add: same_cursor_def fits_def)
  from ma show ?thesis
  proof (cases rule: make_cases [of N T a MaxDtors c tr])
    case no_fit
    then have "\<not> fits N T b" using f by simp
    from make_no_fit [OF this, of MaxDtors c tr2] mb no_fit ma sc show ?thesis
      by auto
  next
    case throws
    then have "fits N T b" using f by simp
    from make_throws [OF this, of MaxDtors tr2] mb throws ma sc show ?thesis
      by (auto simp: same_cursor_def)
  next
    case aborts
    then have "fits N T b" "MaxDtors \<le> dtor_count b" using f d by simp_all
    from make_aborts [OF this, of tr2] mb aborts ma sc show ?thesis
      by (auto simp: same_cursor_def)
  next
    case returns
    then have "fits N T b" "dtor_count b < MaxDtors" using f d by simp_all
    from make_returns [OF this, of tr2] mb returns ma sc show ?thesis
      by (auto simp: same_cursor_def)
  qed
qed

lemma make_all_same_cursor:
  assumes "same_cursor a b"
    and "make_all N MaxDtors reqs (a, tr) = (os, (a', tr'))"
    and "make_all N MaxDtors reqs (b, tr2) = (os2, (b', tr2'))"
  shows "os2 = os \<and> same_cursor a' b'"
  using assms
proof (induction reqs arbitrary: a b tr tr2 os os2)
  case Nil
  then show ?case by simp
next
  case (Cons rq rs)
  obtain T c where rq: "rq = (T, c)" by (cases rq)
  from Cons.prems(2) [unfolded rq] show ?case
  proof (cases rule: make_all_Cons_cases)
    case stop
    from Cons.prems(3) [unfolded rq] show ?thesis
    proof (cases rule: make_all_Cons_cases)
      case stop': stop
      with stop make_same_cursor [OF Cons.prems(1) stop(1) stop'(1)] show ?thesis
        by simp
    next
      case (go r b1 tr3 os3)
      with stop make_same_cursor [OF Cons.prems(1) stop(1) go(1)] show ?thesis
        by simp
    qed
  next
    case (go r a1 tr1 os')
    from Cons.prems(3) [unfolded rq] show ?thesis
    proof (cases rule: make_all_Cons_cases)
      case stop
      with go make_same_cursor [OF Cons.prems(1) go(1), of tr2 Aborts "fst (b', tr2')" "snd (b', tr2')"]
      show ?thesis
        by simp
    next
      case go': (go r2 b1 tr3 os3)
      from make_same_cursor [OF Cons.prems(1) go(1) go'(1)]
      have "r2 = r" and "same_cursor a1 b1" by simp_all
      with Cons.IH [OF _ go(3) go'(3)] go(4) go'(4) show ?thesis
        by simp
    qed
  qed
qed

text \<open>
  Claim C7. Let a sequence of requests run on an empty arena (fresh, or just reset).
  After a \<open>reset\<close>, \<open>used\<close> is 0, and the same sequence run again ends request by request
  as before: where a handle was returned, the same handle is returned again, so each
  object occupies the bytes it occupied in the first run, and \<open>used\<close> ends where it ended.
\<close>

theorem replay_after_reset:
  assumes inv: "arena_inv N MaxDtors a"
    and empty: "used a = 0" "dtor_count a = 0"
    and run: "make_all N MaxDtors reqs (a, tr) = (os, (a1, tr1))"
  shows "\<exists>a2 tr2. reset (a1, tr1) = Some (a2, tr2) \<and> used a2 = 0 \<and>
           fst (make_all N MaxDtors reqs (a2, tr2)) = os \<and>
           used (fst (snd (make_all N MaxDtors reqs (a2, tr2)))) = used a1"
proof -
  let ?a2 = "a1\<lparr>dtor_count := 0, offset := 0\<rparr>"
  let ?tr2 = "tr1 @ map destroyed (rev (live_objects a1))"
  have inv1: "arena_inv N MaxDtors a1" and buf: "buffer a1 = buffer a"
    using make_all_inv [OF inv run] by simp_all
  have r: "reset (a1, tr1) = Some (?a2, ?tr2)"
    using inv1 by (rule reset_inv)
  have sc: "same_cursor a ?a2"
    using empty buf by (simp add: same_cursor_def used_def)
  obtain os2 a3 tr3 where again: "make_all N MaxDtors reqs (?a2, ?tr2) = (os2, (a3, tr3))"
    by (metis surj_pair)
  from make_all_same_cursor [OF sc run again]
  have "os2 = os" and "same_cursor a1 a3" by simp_all
  then have "fst (make_all N MaxDtors reqs (?a2, ?tr2)) = os"
    and "used (fst (snd (make_all N MaxDtors reqs (?a2, ?tr2)))) = used a1"
    using again by (simp_all add: same_cursor_def used_def)
  with r show ?thesis
    by (intro exI [of _ ?a2] exI [of _ ?tr2]) (simp add: used_def)
qed

theorem replay_after_reset_witness:
  "arena_inv 1024 3 (FixedArena_init 3 4096) \<and>
   used (FixedArena_init 3 4096) = 0 \<and> dtor_count (FixedArena_init 3 4096) = 0 \<and>
   fst (make_all 1024 3 three_widgets (FixedArena_init 3 4096, [])) =
     [Returns (Some 4096), Returns (Some 4100), Returns (Some 4104)] \<and>
   (\<exists>a2 tr2. reset (snd (make_all 1024 3 three_widgets (FixedArena_init 3 4096, []))) =
        Some (a2, tr2) \<and> used a2 = 0 \<and>
      fst (make_all 1024 3 three_widgets (a2, tr2)) =
        [Returns (Some 4096), Returns (Some 4100), Returns (Some 4104)] \<and>
      used (fst (snd (make_all 1024 3 three_widgets (a2, tr2)))) = 12)"
proof -
  have inv: "arena_inv 1024 3 (FixedArena_init 3 4096)"
    and e1: "used (FixedArena_init 3 4096) = 0"
    and e2: "dtor_count (FixedArena_init 3 4096) = 0"
    using arena_inv_init [of 3 4096 1024] by (simp_all add: used_def)
  from replay_after_reset [OF inv e1 e2 three_widgets_run]
  show ?thesis
    using inv e1 e2 by (simp add: three_widgets_run used_def)
qed

section \<open>A full ledger\<close>

lemma exhaustion_run:
  assumes "arena_inv N MaxDtors a"
    and "unat (dtor_count a) + length reqs = Suc (unat MaxDtors)"
    and "make_all N MaxDtors reqs (a, tr) = (os, (a', tr'))"
    and "Returns None \<notin> set os" and "Throws \<notin> set os"
  shows "length os = length reqs \<and>
         (\<forall>out \<in> set (butlast os). \<exists>p. out = Returns (Some p)) \<and>
         last os = Aborts \<and>
         (\<exists>tr0 p. tr' = tr0 @ [Constructed (fst (last reqs)) p,
                                Puts ''Too many objects for destructor list''])"
  using assms
proof (induction reqs arbitrary: a tr os)
  case Nil
  then have "unat (dtor_count a) \<le> unat MaxDtors"
    by (simp add: arena_inv_def word_le_nat_alt)
  with Nil.prems(2) show ?case by simp
next
  case (Cons rq rs)
  obtain T c where rq: "rq = (T, c)" by (cases rq)
  from Cons.prems(1) have le: "unat (dtor_count a) \<le> unat MaxDtors"
    by (simp add: arena_inv_def word_le_nat_alt)
  from Cons.prems(3) [unfolded rq] show ?case
  proof (cases rule: make_all_Cons_cases)
    case stop
    from stop(1) have full: "MaxDtors \<le> dtor_count a"
      and t: "tr' = tr @ [Constructed T (buffer a + align_up (offset a) (alignof T)),
                          Puts ''Too many objects for destructor list'']"
      by (cases rule: make_cases [of N T a MaxDtors c tr]; simp)+
    from full le have "unat (dtor_count a) = unat MaxDtors"
      by (simp add: word_le_nat_alt)
    with Cons.prems(2) have "rs = []" by simp
    with stop(2) t show ?thesis
      by (simp add: rq)
  next
    case (go r a1 tr1 os')
    from Cons.prems(4,5) go(2,4) have "\<exists>p. r = Returns (Some p)"
      by (cases r; simp) (rename_tac x, case_tac x; simp)
    then obtain p where r: "r = Returns (Some p)" ..
    from go(1) [unfolded r] have room: "dtor_count a < MaxDtors"
      and d1: "dtor_count a1 = dtor_count a + 1"
      by (cases rule: make_cases [of N T a MaxDtors c tr]; simp)+
    have inv1: "arena_inv N MaxDtors a1"
      using make_inv [OF Cons.prems(1) go(1)] by simp
    have "unat (dtor_count a1) = Suc (unat (dtor_count a))"
      using room d1 by (simp add: unat_inc_below)
    with Cons.prems(2) have cnt: "unat (dtor_count a1) + length rs = Suc (unat MaxDtors)"
      by simp
    from inv1 have "unat (dtor_count a1) \<le> unat MaxDtors"
      by (simp add: arena_inv_def word_le_nat_alt)
    with cnt have ne: "rs \<noteq> []" by auto
    from Cons.prems(4,5) go(4) have "Returns None \<notin> set os'" "Throws \<notin> set os'"
      by simp_all
    from Cons.IH [OF inv1 cnt go(3) this]
    have ih: "length os' = length rs"
      "\<forall>out \<in> set (butlast os'). \<exists>p. out = Returns (Some p)"
      "last os' = Aborts"
      "\<exists>tr0 p. tr' = tr0 @ [Constructed (fst (last rs)) p,
                             Puts ''Too many objects for destructor list'']"
      by simp_all
    from ih(1) ne have ne': "os' \<noteq> []" by auto
    then show ?thesis
      using ih ne go(4) r by (simp add: rq)
  qed
qed

lemma make_all_length:
  "make_all N MaxDtors reqs w = (os, w') \<Longrightarrow> length os \<le> length reqs"
proof (induction reqs arbitrary: w os)
  case Nil
  then show ?case by simp
next
  case (Cons rq rs)
  obtain T c where rq: "rq = (T, c)" by (cases rq)
  obtain a tr where w: "w = (a, tr)" by (cases w)
  from Cons.prems [unfolded rq w] show ?case
  proof (cases rule: make_all_Cons_cases)
    case stop
    then show ?thesis by simp
  next
    case (go r a1 tr1 os')
    with Cons.IH [OF go(3)] show ?thesis by simp
  qed
qed

text \<open>A run stops at the first abort: what is requested after it is not executed.\<close>

lemma make_all_append:
  "make_all N MaxDtors (xs @ ys) w =
     (case make_all N MaxDtors xs w of
        (os, w') \<Rightarrow>
          if Aborts \<in> set os then (os, w')
          else (case make_all N MaxDtors ys w' of (os2, w'') \<Rightarrow> (os @ os2, w'')))"
proof (induction xs arbitrary: w)
  case Nil
  then show ?case by (simp split: prod.splits)
next
  case (Cons rq rs)
  obtain T c where rq: "rq = (T, c)" by (cases rq)
  obtain r w1 where m: "make N MaxDtors T c w = (r, w1)" by (cases "make N MaxDtors T c w")
  show ?case
  proof (cases "r = Aborts")
    case True
    with m show ?thesis by (simp add: rq)
  next
    case False
    obtain os1 w2 where rest: "make_all N MaxDtors rs w1 = (os1, w2)"
      by (cases "make_all N MaxDtors rs w1")
    obtain os2 w3 where tail: "make_all N MaxDtors ys w2 = (os2, w3)"
      by (cases "make_all N MaxDtors ys w2")
    from False m rest have l: "make_all N MaxDtors ((T, c) # rs) w = (r # os1, w2)"
      by (cases r) simp_all
    from Cons.IH [of w1] rest tail
    have "make_all N MaxDtors (rs @ ys) w1 =
        (if Aborts \<in> set os1 then (os1, w2) else (os1 @ os2, w3))"
      by simp
    with False m have "make_all N MaxDtors ((T, c) # rs @ ys) w =
        (if Aborts \<in> set os1 then (r # os1, w2) else (r # os1 @ os2, w3))"
      by (cases r) simp_all
    with l tail False show ?thesis
      by (simp add: rq del: make_all.simps)
  qed
qed

lemma make_all_single:
  "make_all N MaxDtors [(T, c)] w = (case make N MaxDtors T c w of (r, w') \<Rightarrow> ([r], w'))"
  by (simp split: prod.splits outcome.splits)

text \<open>
  Claim C1, as the code has it. On an arena with an empty ledger, let
  \<open>MaxDtors + 1\<close> requests run, none of which fails for lack of bytes and none of whose
  constructors throws. The first \<open>MaxDtors\<close> return handles and fill the ledger. For the
  last one the bytes are reserved (the offset advances by the aligned size), the object
  is constructed, and only then \<open>push_dtor\<close> finds the ledger full: it prints a message
  and calls \<^verbatim>\<open>::abort()\<close>; the ledger is as the first \<open>MaxDtors\<close> requests left it. No
  failure is reported to the caller; requests issued after it are not executed, and the
  block that owns the arena is not left, so no finalizer runs.
\<close>

theorem ledger_exhaustion_aborts:
  assumes inv: "arena_inv N MaxDtors a" and empty: "dtor_count a = 0"
    and len: "length reqs = unat MaxDtors + 1"
    and run: "make_all N MaxDtors reqs (a, tr) = (os, (a', tr'))"
    and bytes: "Returns None \<notin> set os" and ctors: "Throws \<notin> set os"
  shows "length os = unat MaxDtors + 1 \<and>
         (\<forall>out \<in> set (butlast os). \<exists>p. out = Returns (Some p)) \<and>
         last os = Aborts \<and>
         (\<exists>a1 tr1.
            make_all N MaxDtors (butlast reqs) (a, tr) = (butlast os, (a1, tr1)) \<and>
            dtor_count a1 = MaxDtors \<and>
            live_objects a1 = made_objects (butlast reqs) (butlast os) \<and>
            fits N (fst (last reqs)) a1 \<and>
            a' = a1\<lparr>offset := align_up (offset a1) (alignof (fst (last reqs))) +
                               sizeof (fst (last reqs))\<rparr> \<and>
            tr' = tr1 @
              [Constructed (fst (last reqs))
                 (buffer a1 + align_up (offset a1) (alignof (fst (last reqs)))),
               Puts ''Too many objects for destructor list'']) \<and>
         (\<forall>more. make_all N MaxDtors (reqs @ more) (a, tr) = (os, (a', tr'))) \<and>
         leave_scope (Aborts, (a', tr')) = Some (Aborts, tr')"
proof -
  have cnt: "unat (dtor_count a) + length reqs = Suc (unat MaxDtors)"
    using empty len by simp
  from exhaustion_run [OF inv cnt run bytes ctors] len
  have los: "length os = unat MaxDtors + 1"
    and handles: "\<forall>out \<in> set (butlast os). \<exists>p. out = Returns (Some p)"
    and last: "last os = Aborts"
    by simp_all
  from len have ne: "reqs \<noteq> []" by auto
  obtain T c where lr: "last reqs = (T, c)" by (cases "last reqs")
  with ne have split: "reqs = butlast reqs @ [(T, c)]"
    by (metis append_butlast_last_id)
  obtain os1 a1 tr1 where front: "make_all N MaxDtors (butlast reqs) (a, tr) = (os1, (a1, tr1))"
    by (metis surj_pair)
  obtain r w2 where m: "make N MaxDtors T c (a1, tr1) = (r, w2)"
    by (cases "make N MaxDtors T c (a1, tr1)")
  have "length os1 \<le> length (butlast reqs)"
    using front by (rule make_all_length)
  then have short: "length os1 < length os"
    using los len by simp
  have "make_all N MaxDtors (butlast reqs @ [(T, c)]) (a, tr) =
      (if Aborts \<in> set os1 then (os1, (a1, tr1)) else (os1 @ [r], w2))"
    by (simp add: make_all_append make_all_single front m del: make_all.simps)
  with run split have alt: "(os, (a', tr')) =
      (if Aborts \<in> set os1 then (os1, (a1, tr1)) else (os1 @ [r], w2))"
    by simp
  have nab: "Aborts \<notin> set os1"
  proof
    assume "Aborts \<in> set os1"
    with alt have "os = os1" by simp
    with short show False by simp
  qed
  with alt have os: "os = os1 @ [r]" and w2: "w2 = (a', tr')"
    by simp_all
  from os last have r: "r = Aborts" by simp
  from os have bl: "butlast os = os1" by simp
  have inv1: "arena_inv N MaxDtors a1"
    using make_all_inv [OF inv front] by simp
  from m [unfolded r w2] have fit: "fits N T a1" and full: "MaxDtors \<le> dtor_count a1"
    and a': "a' = a1\<lparr>offset := align_up (offset a1) (alignof T) + sizeof T\<rparr>"
    and tr': "tr' = tr1 @ [Constructed T (buffer a1 + align_up (offset a1) (alignof T)),
        Puts ''Too many objects for destructor list'']"
    by (cases rule: make_cases [of N T a1 MaxDtors c tr1]; simp)+
  from inv1 full have dc: "dtor_count a1 = MaxDtors"
    by (simp add: arena_inv_def)
  have live: "live_objects a1 = made_objects (butlast reqs) (butlast os)"
    using make_all_live_objects [OF inv front] live_objects_empty [OF empty] bl by simp
  have first: "\<exists>a1 tr1.
      make_all N MaxDtors (butlast reqs) (a, tr) = (butlast os, (a1, tr1)) \<and>
      dtor_count a1 = MaxDtors \<and>
      live_objects a1 = made_objects (butlast reqs) (butlast os) \<and>
      fits N (fst (last reqs)) a1 \<and>
      a' = a1\<lparr>offset := align_up (offset a1) (alignof (fst (last reqs))) +
                         sizeof (fst (last reqs))\<rparr> \<and>
      tr' = tr1 @
        [Constructed (fst (last reqs))
           (buffer a1 + align_up (offset a1) (alignof (fst (last reqs)))),
         Puts ''Too many objects for destructor list'']"
    using front bl dc live fit a' tr' lr
    by (intro exI [of _ a1] exI [of _ tr1]) simp
  have "Aborts \<in> set os"
    using os r by simp
  then have after: "\<forall>more. make_all N MaxDtors (reqs @ more) (a, tr) = (os, (a', tr'))"
    by (simp add: make_all_append run)
  have scope: "leave_scope (Aborts, (a', tr')) = Some (Aborts, tr')"
    by (simp add: leave_scope_def)
  show ?thesis
    using los handles last first after scope by blast
qed

lemma three_widgets_two_slots:
  "make_all 1024 2 three_widgets (FixedArena_init 2 4096, []) =
     ([Returns (Some 4096), Returns (Some 4100), Aborts],
      widget_arena\<lparr>offset := 12\<rparr>,
      [Constructed Widget 4096, Constructed Widget 4100, Constructed Widget 4104,
       Puts ''Too many objects for destructor list''])"
  by (simp add: three_widgets_def init_2 eval_defs widget_arena_def)

theorem ledger_exhaustion_aborts_witness:
  "arena_inv 1024 2 (FixedArena_init 2 4096) \<and> dtor_count (FixedArena_init 2 4096) = 0 \<and>
   length three_widgets = unat (2 :: size_t) + 1 \<and>
   make_all 1024 2 three_widgets (FixedArena_init 2 4096, []) =
     ([Returns (Some 4096), Returns (Some 4100), Aborts],
      widget_arena\<lparr>offset := 12\<rparr>,
      [Constructed Widget 4096, Constructed Widget 4100, Constructed Widget 4104,
       Puts ''Too many objects for destructor list'']) \<and>
   Returns None \<notin> set [Returns (Some 4096), Returns (Some (4100 :: addr)), Aborts] \<and>
   Throws \<notin> set [Returns (Some 4096), Returns (Some (4100 :: addr)), Aborts] \<and>
   last [Returns (Some 4096), Returns (Some (4100 :: addr)), Aborts] = Aborts \<and>
   make_all 1024 2 (butlast three_widgets) (FixedArena_init 2 4096, []) =
     ([Returns (Some 4096), Returns (Some 4100)],
      widget_arena, [Constructed Widget 4096, Constructed Widget 4100]) \<and>
   dtor_count widget_arena = 2 \<and> used widget_arena = 8 \<and>
   used (widget_arena\<lparr>offset := 12\<rparr>) = 12 \<and>
   make_all 1024 2 (three_widgets @ three_widgets) (FixedArena_init 2 4096, []) =
     ([Returns (Some 4096), Returns (Some 4100), Aborts],
      widget_arena\<lparr>offset := 12\<rparr>,
      [Constructed Widget 4096, Constructed Widget 4100, Constructed Widget 4104,
       Puts ''Too many objects for destructor list'']) \<and>
   leave_scope (Aborts :: int outcome, (widget_arena\<lparr>offset := 12\<rparr>,
      [Constructed Widget 4096, Constructed Widget 4100, Constructed Widget 4104,
       Puts ''Too many objects for destructor list''])) =
     Some (Aborts,
      [Constructed Widget 4096, Constructed Widget 4100, Constructed Widget 4104,
       Puts ''Too many objects for destructor list''])"
proof -
  have inv: "arena_inv 1024 2 (FixedArena_init 2 4096)"
    and empty: "dtor_count (FixedArena_init 2 4096) = 0"
    using arena_inv_init [of 2 4096 1024] by simp_all
  have len: "length three_widgets = unat (2 :: size_t) + 1"
    by (simp add: three_widgets_def)
  have bytes: "Returns None \<notin> set [Returns (Some 4096), Returns (Some (4100 :: addr)), Aborts]"
    and ctors: "Throws \<notin> set [Returns (Some 4096), Returns (Some (4100 :: addr)), Aborts]"
    by simp_all
  note inst = ledger_exhaustion_aborts
    [OF inv empty len three_widgets_two_slots bytes ctors]
  from inst have l: "last [Returns (Some 4096), Returns (Some (4100 :: addr)), Aborts] = Aborts"
    by blast
  from inst have after:
    "make_all 1024 2 (three_widgets @ three_widgets) (FixedArena_init 2 4096, []) =
     ([Returns (Some 4096), Returns (Some 4100), Aborts],
      widget_arena\<lparr>offset := 12\<rparr>,
      [Constructed Widget 4096, Constructed Widget 4100, Constructed Widget 4104,
       Puts ''Too many objects for destructor list''])"
    by blast
  from inst have scope:
    "leave_scope (Aborts :: int outcome, (widget_arena\<lparr>offset := 12\<rparr>,
      [Constructed Widget 4096, Constructed Widget 4100, Constructed Widget 4104,
       Puts ''Too many objects for destructor list''])) =
     Some (Aborts,
      [Constructed Widget 4096, Constructed Widget 4100, Constructed Widget 4104,
       Puts ''Too many objects for destructor list''])"
    by blast
  have front: "make_all 1024 2 (butlast three_widgets) (FixedArena_init 2 4096, []) =
     ([Returns (Some 4096), Returns (Some 4100)],
      widget_arena, [Constructed Widget 4096, Constructed Widget 4100])"
    using two_widgets by (simp add: three_widgets_def del: make_all.simps)
  have u: "dtor_count widget_arena = 2" "used widget_arena = 8"
    "used (widget_arena\<lparr>offset := 12\<rparr>) = 12"
    by (simp_all add: widget_arena_def used_def)
  show ?thesis
    using inv empty len three_widgets_two_slots bytes ctors l front u after scope
    by blast
qed

text \<open>
  The claim C1 as the specification states it fails on the code: with two ledger slots,
  the third request does not return a failure to its caller. Its object is constructed
  at 4104, then the process is aborted.
\<close>

theorem ledger_exhaustion_counterexample:
  "make_all 1024 2 three_widgets (FixedArena_init 2 4096, []) =
     ([Returns (Some 4096), Returns (Some 4100), Aborts],
      widget_arena\<lparr>offset := 12\<rparr>,
      [Constructed Widget 4096, Constructed Widget 4100, Constructed Widget 4104,
       Puts ''Too many objects for destructor list'']) \<and>
   make 1024 2 Widget Ctor_returns (widget_arena, []) =
     (Aborts, widget_arena\<lparr>offset := 12\<rparr>,
      [Constructed Widget 4104, Puts ''Too many objects for destructor list'']) \<and>
   fst (make 1024 2 Widget Ctor_returns (widget_arena, [])) \<noteq> Returns None"
  by (simp add: three_widgets_def init_2 eval_defs widget_arena_def)

end
